theory Spec2Isabelle
  imports Complex_Main "HOL-Library.Signed_Division" "HOL-Library.Word"
begin

section \<open>Organic tree supports: the model of OrganicSupport.cpp\<close>

text \<open>
  Conventions of the embedding.
  \<^item> The C++ types \<open>float\<close> and \<open>double\<close> are read as \<^typ>\<open>real\<close>: arithmetic is exact and
    the casts between the two are the identity. Rounding, infinities and NaN are outside the
    model; where the source can divide zero by zero the model returns an error value.
  \<^item> \<open>int\<close>, \<open>LayerIndex\<close> and \<open>coord_t\<close> are read as \<^typ>\<open>int\<close> (no wrap-around: the claims
    concern layer counts and vertex indices far from the limits of the machine types).
  \<^item> \<open>assert\<close> is modelled as checked: a violated assertion is the outcome
    \<open>AssertionFailed\<close>. An index outside a \<open>std::vector\<close> is the outcome \<open>IndexOutOfRange\<close>.
  \<^item> An exception thrown by the injected \<open>throw_on_cancel\<close> is the outcome \<open>Cancelled e\<close>,
    with \<open>e\<close> a string that identifies the thrown value.
\<close>

datatype error = AssertionFailed | IndexOutOfRange | DivisionByZero | Cancelled string

type_synonym Vec2d = "real \<times> real"
type_synonym Vec3f = "real \<times> real \<times> real"

definition at_index :: "'a list \<Rightarrow> int \<Rightarrow> error + 'a" where
  "at_index xs i = (if 0 \<le> i \<and> i < int (length xs) then Inr (xs ! nat i) else Inl IndexOutOfRange)"

subsection \<open>Eigen vector operations used by the source\<close>

definition sub3 :: "Vec3f \<Rightarrow> Vec3f \<Rightarrow> Vec3f" where
  "sub3 a b = (case a of (ax, ay, az) \<Rightarrow> case b of (bx, by, bz) \<Rightarrow> (ax - bx, ay - by, az - bz))"

definition squaredNorm3 :: "Vec3f \<Rightarrow> real" where
  "squaredNorm3 a = (case a of (x, y, z) \<Rightarrow> x * x + y * y + z * z)"

subsection \<open>triangulate_strip\<close>

record indexed_triangle_set =
  vertices :: "Vec3f list"
  indices :: "(int \<times> int \<times> int) list"

text \<open>\<open>std::numeric_limits<float>::max()\<close>.\<close>

definition FLT_MAX :: real where
  "FLT_MAX = (2 - 1 / 2 ^ 23) * 2 ^ 127"

text \<open>
  The first loop of \<open>triangulate_strip\<close>: for the first vertex \<open>p1\<close> of the first ring, the
  index of the closest vertex of the second ring. \<open>vs\<close> is \<open>its.vertices\<close>; the loop variable
  is \<open>i\<close>, the running minimum \<open>d2min\<close>, the running answer \<open>istart2\<close>.
\<close>

function closest_on_second :: "Vec3f list \<Rightarrow> Vec3f \<Rightarrow> int \<Rightarrow> int \<Rightarrow> real \<Rightarrow> int \<Rightarrow> int" where
  "closest_on_second vs p1 i iend2 d2min istart2 =
     (if i < iend2 then
        (let p2 = vs ! nat i;
             d2 = squaredNorm3 (sub3 p2 p1)
         in if d2 < d2min then closest_on_second vs p1 (i + 1) iend2 d2 i
            else closest_on_second vs p1 (i + 1) iend2 d2min istart2)
      else istart2)"
  by pat_completeness auto
termination
  by (relation "measure (\<lambda>(vs, p1, i, iend2, d2min, istart2). nat (iend2 - i))") auto

declare closest_on_second.simps [simp del]

text \<open>\<open>update_u2\<close> and \<open>update_v2\<close>: the next index of a ring, wrapping at its end.\<close>

definition next_in_ring :: "int \<Rightarrow> int \<Rightarrow> int \<Rightarrow> int" where
  "next_in_ring u ibegin iend = (if u + 1 = iend then ibegin else u + 1)"

text \<open>
  The zig-zag loop. \<open>n1\<close> and \<open>n2\<close> are the source's \<open>int\<close> counters \<open>iend1 - ibegin1\<close> and
  \<open>iend2 - ibegin2\<close>; the assertions at the head of \<open>triangulate_strip\<close> make them at least
  3 and the loop only decrements a counter that is not zero, so they are held as \<^typ>\<open>nat\<close>.
  \<open>acc\<close> is the part of \<open>its.indices\<close> pushed by the loop so far.
\<close>

function strip_loop ::
  "Vec3f list \<Rightarrow> int \<Rightarrow> int \<Rightarrow> int \<Rightarrow> int \<Rightarrow> int \<Rightarrow> int \<Rightarrow> nat \<Rightarrow> nat \<Rightarrow>
   (int \<times> int \<times> int) list \<Rightarrow> (int \<times> int \<times> int) list" where
  "strip_loop vs ibegin1 iend1 ibegin2 iend2 u v n1 n2 acc =
     (if n1 > 0 \<or> n2 > 0 then
        (let u2 = next_in_ring u ibegin1 iend1;
             v2 = next_in_ring v ibegin2 iend2;
             take_first =
               (if n1 = 0 then False
                else if n2 = 0 then True
                else (let l1 = squaredNorm3 (sub3 (vs ! nat u2) (vs ! nat v));
                          l2 = squaredNorm3 (sub3 (vs ! nat v2) (vs ! nat u))
                      in l1 < l2))
         in if take_first
            then strip_loop vs ibegin1 iend1 ibegin2 iend2 u2 v (n1 - 1) n2 (acc @ [(u, u2, v)])
            else strip_loop vs ibegin1 iend1 ibegin2 iend2 u v2 n1 (n2 - 1) (acc @ [(u, v2, v)]))
      else acc)"
  by pat_completeness auto
termination
  by (relation "measure (\<lambda>(vs, ibegin1, iend1, ibegin2, iend2, u, v, n1, n2, acc). n1 + n2)")
    (auto split: if_splits)

declare strip_loop.simps [simp del]

definition triangulate_strip ::
  "indexed_triangle_set \<Rightarrow> int \<Rightarrow> int \<Rightarrow> int \<Rightarrow> int \<Rightarrow> error + indexed_triangle_set" where
  "triangulate_strip its ibegin1 iend1 ibegin2 iend2 =
     (if \<not> (ibegin1 + 3 \<le> iend1) then Inl AssertionFailed
      else if \<not> (ibegin1 \<ge> 0 \<and> iend1 \<le> int (length (vertices its))) then Inl AssertionFailed
      else if \<not> (ibegin2 + 3 \<le> iend2) then Inl AssertionFailed
      else if \<not> (ibegin2 \<ge> 0 \<and> iend2 \<le> int (length (vertices its))) then Inl AssertionFailed
      else
        (let n1 = nat (iend1 - ibegin1);
             n2 = nat (iend2 - ibegin2);
             p1 = vertices its ! nat ibegin1;
             istart2 = closest_on_second (vertices its) p1 ibegin2 iend2 FLT_MAX ibegin2
         in Inr (its\<lparr>indices :=
                  strip_loop (vertices its) ibegin1 iend1 ibegin2 iend2 ibegin1 istart2 n1 n2
                    (indices its)\<rparr>)))"

text \<open>Membership of a vertex index in one of the two rings.\<close>

definition in_rings :: "int \<Rightarrow> int \<Rightarrow> int \<Rightarrow> int \<Rightarrow> int \<Rightarrow> bool" where
  "in_rings ibegin1 iend1 ibegin2 iend2 i =
     ((ibegin1 \<le> i \<and> i < iend1) \<or> (ibegin2 \<le> i \<and> i < iend2))"

definition triangle_in_rings :: "int \<Rightarrow> int \<Rightarrow> int \<Rightarrow> int \<Rightarrow> int \<times> int \<times> int \<Rightarrow> bool" where
  "triangle_in_rings ibegin1 iend1 ibegin2 iend2 t =
     (case t of (a, b, c) \<Rightarrow>
        in_rings ibegin1 iend1 ibegin2 iend2 a \<and>
        in_rings ibegin1 iend1 ibegin2 iend2 b \<and>
        in_rings ibegin1 iend1 ibegin2 iend2 c)"

subsection \<open>The forest of support elements\<close>

text \<open>
  \<open>SupportElementState\<close> and \<open>SupportElement\<close> are declared outside this file; the fields are
  the ones this file reads or writes. \<open>move_bounds\<close> is a list of layers, each a list of
  elements; \<open>parents\<close> holds indices into the layer above. A pointer or reference to an element
  is its address in \<open>move_bounds\<close>: the pair of the layer's position and the position within the
  layer. The flag \<open>state.marked\<close>, the only field the branch extractor writes, is kept apart from
  \<open>move_bounds\<close> as the set of the addresses of the marked elements.
\<close>

record SupportElementState =
  layer_idx :: int
  lost :: bool
  verylost :: bool
  to_model_gracious :: bool
  result_on_layer :: "int \<times> int"

record SupportElement =
  state :: SupportElementState
  parents :: "int list"

type_synonym ElementRef = "int \<times> int"

definition deref :: "SupportElement list list \<Rightarrow> ElementRef \<Rightarrow> error + SupportElement" where
  "deref move_bounds r =
     (case at_index move_bounds (fst r) of
        Inl e \<Rightarrow> Inl e
      | Inr layer \<Rightarrow> at_index layer (snd r))"

subsection \<open>Branch extraction: TreeVisitor::visit_recursive and its caller\<close>

record Branch =
  path :: "ElementRef list"
  has_root :: bool
  has_tip :: bool

record Tree =
  branches :: "Branch list"
  first_layer_id :: int

definition in_bounds :: "SupportElement list list \<Rightarrow> ElementRef \<Rightarrow> bool" where
  "in_bounds move_bounds r =
     (0 \<le> fst r \<and> fst r < int (length move_bounds) \<and>
      0 \<le> snd r \<and> snd r < int (length (move_bounds ! nat (fst r))))"

definition element_at :: "SupportElement list list \<Rightarrow> ElementRef \<Rightarrow> SupportElement" where
  "element_at move_bounds r = move_bounds ! nat (fst r) ! nat (snd r)"

lemma deref_Inr_iff:
  "deref mb r = Inr e \<longleftrightarrow> in_bounds mb r \<and> e = element_at mb r"
  by (auto simp: deref_def at_index_def in_bounds_def element_at_def split: sum.splits if_splits)

text \<open>
  The inner loop of \<open>visit_recursive\<close>: from \<open>first_parent\<close>, which has exactly one parent,
  walk up the chain of single-parent elements. \<open>parent\<close> is the loop variable,
  \<open>bpath\<close> is \<open>branch.path\<close> (its last element is \<open>parent\<close>, the element appended last), and
  the result holds the marks, the path and \<open>next_branch\<close>.
\<close>

function walk_chain ::
  "SupportElement list list \<Rightarrow> ElementRef set \<Rightarrow> ElementRef \<Rightarrow> ElementRef list \<Rightarrow>
   error + (ElementRef set \<times> ElementRef list \<times> ElementRef option)" where
  "walk_chain move_bounds marks parent bpath =
     (case deref move_bounds parent of
        Inl e \<Rightarrow> Inl e
      | Inr parent_elem \<Rightarrow>
          if parent \<notin> marks then Inl AssertionFailed
          else
            (case parents parent_elem of
               [] \<Rightarrow> Inl IndexOutOfRange
             | front # _ \<Rightarrow>
                 (let next_parent = (layer_idx (state parent_elem) + 1, front)
                  in case deref move_bounds next_parent of
                       Inl e \<Rightarrow> Inl e
                     | Inr next_elem \<Rightarrow>
                         if next_parent \<in> marks then Inl AssertionFailed
                         else if layer_idx (state parent_elem) + 1 \<noteq> layer_idx (state next_elem)
                           then Inl AssertionFailed
                         else if length (parents next_elem) > 1
                           then Inr (marks, bpath @ [next_parent], Some next_parent)
                         else if length (parents next_elem) = 0
                           then Inr (insert next_parent marks, bpath @ [next_parent], None)
                         else walk_chain move_bounds (insert next_parent marks) next_parent
                                (bpath @ [next_parent]))))"
  by pat_completeness auto
termination
  apply (relation "measure (\<lambda>(mb, marks, parent, bpath).
            nat (int (length mb) - layer_idx (state (element_at mb parent))))")
   apply simp
  apply (auto simp: deref_Inr_iff in_bounds_def)
  done

declare walk_chain.simps [simp del]

definition layers_above :: "SupportElement list list \<Rightarrow> ElementRef \<Rightarrow> nat" where
  "layers_above move_bounds r =
     nat (int (length move_bounds) - layer_idx (state (element_at move_bounds r)))"

lemma walk_chain_next_layer:
  "walk_chain mb marks parent bpath = Inr (marks2, bpath2, Some nb) \<Longrightarrow>
   layer_idx (state (element_at mb parent)) < layer_idx (state (element_at mb nb))"
proof (induction mb marks parent bpath rule: walk_chain.induct)
  case (1 mb marks parent bpath)
  from "1.prems" show ?case
    apply (subst (asm) walk_chain.simps)
    apply (auto simp: deref_Inr_iff Let_def split: sum.splits if_splits list.splits
        dest!: "1.IH" [rotated -1])
    done
qed

text \<open>
  One iteration of the loop over \<open>start_element.parents\<close>, up to the assertions that precede
  the construction of the branch: the path from \<open>start_element\<close> through its parent number
  \<open>parent_idx\<close> up to the next bifurcation or tip, and \<open>next_branch\<close>.
\<close>

definition follow_branch ::
  "SupportElement list list \<Rightarrow> ElementRef set \<Rightarrow> ElementRef \<Rightarrow> SupportElement \<Rightarrow> nat \<Rightarrow>
   error + (ElementRef set \<times> ElementRef list \<times> ElementRef option)" where
  "follow_branch move_bounds marks start_element start parent_idx =
     (let first_parent = (layer_idx (state start) + 1, parents start ! parent_idx)
      in case deref move_bounds first_parent of
           Inl e \<Rightarrow> Inl e
         | Inr first_elem \<Rightarrow>
             if first_parent \<in> marks then Inl AssertionFailed
             else if layer_idx (state start) + 1 \<noteq> layer_idx (state first_elem)
               then Inl AssertionFailed
             else
               (let marks1 = (if length (parents first_elem) < 2
                              then insert first_parent marks else marks)
                in case (if length (parents first_elem) = 1
                           then walk_chain move_bounds marks1 first_parent
                                  [start_element, first_parent]
                         else if length (parents first_elem) > 1
                           then Inr (marks1, [start_element, first_parent], Some first_parent)
                         else Inr (marks1, [start_element, first_parent], None)) of
                     Inl e \<Rightarrow> Inl e
                   | Inr (marks2, bpath, next_branch) \<Rightarrow>
                       if \<not> length bpath \<ge> 2 then Inl AssertionFailed
                       else if \<not> (case next_branch of None \<Rightarrow> True | Some nb \<Rightarrow> nb \<notin> marks2)
                         then Inl AssertionFailed
                       else Inr (marks2, bpath, next_branch)))"

lemma walk_chain_path:
  "walk_chain mb marks parent bpath = Inr (marks2, bpath2, nb) \<Longrightarrow> \<exists>more. bpath2 = bpath @ more"
proof (induction mb marks parent bpath rule: walk_chain.induct)
  case (1 mb marks parent bpath)
  from "1.prems" show ?case
    apply (subst (asm) walk_chain.simps)
    apply (auto simp: deref_Inr_iff Let_def split: sum.splits if_splits list.splits
        dest!: "1.IH" [rotated -1])
    done
qed

lemma follow_branch_cases:
  assumes "follow_branch mb marks s start k = Inr (marks2, bpath, next_branch)"
  defines "fp \<equiv> (layer_idx (state start) + 1, parents start ! k)"
  shows "in_bounds mb fp \<and> layer_idx (state (element_at mb fp)) = layer_idx (state start) + 1 \<and>
         ((next_branch = Some fp \<and> bpath = [s, fp]) \<or>
          (next_branch = None \<and> bpath = [s, fp]) \<or>
          (\<exists>m1. walk_chain mb m1 fp [s, fp] = Inr (marks2, bpath, next_branch)))"
proof -
  from assms(1) obtain fe where fe: "deref mb fp = Inr fe"
    by (auto simp: follow_branch_def Let_def fp_def split: sum.splits)
  then have b: "in_bounds mb fp" and e: "fe = element_at mb fp"
    by (simp_all add: deref_Inr_iff)
  from assms(1) fe have l: "layer_idx (state start) + 1 = layer_idx (state fe)"
    by (auto simp: follow_branch_def Let_def fp_def split: sum.splits if_splits)
  from assms(1) fe have
    "(next_branch = Some fp \<and> bpath = [s, fp]) \<or>
     (next_branch = None \<and> bpath = [s, fp]) \<or>
     (\<exists>m1. walk_chain mb m1 fp [s, fp] = Inr (marks2, bpath, next_branch))"
    unfolding follow_branch_def Let_def fp_def [symmetric]
    by (auto split: sum.splits if_splits)
  with b e l show ?thesis by simp
qed

lemma follow_branch_next_layer:
  assumes "follow_branch mb marks s (element_at mb s) k = Inr (marks2, bpath, Some nb)"
  shows "layer_idx (state (element_at mb s)) < layer_idx (state (element_at mb nb)) \<and>
         layer_idx (state (element_at mb s)) < int (length mb)"
  using follow_branch_cases [OF assms]
  by (auto simp: in_bounds_def dest: walk_chain_next_layer)

lemma follow_branch_hd:
  assumes "follow_branch mb marks s start k = Inr (marks2, bpath, nb)"
  shows "hd bpath = s"
  using follow_branch_cases [OF assms]
  by (auto dest: walk_chain_path)

text \<open>
  \<open>visit_recursive\<close>, and \<open>visit_parents\<close> for its loop over \<open>start_element.parents\<close> from
  \<open>parent_idx\<close> on. \<open>is_root\<close> is the local \<open>root\<close>, computed once before the loop.
\<close>

function visit_recursive ::
    "SupportElement list list \<Rightarrow> ElementRef set \<Rightarrow> ElementRef \<Rightarrow> Tree \<Rightarrow>
     error + (ElementRef set \<times> Tree)"
  and visit_parents ::
    "SupportElement list list \<Rightarrow> ElementRef set \<Rightarrow> ElementRef \<Rightarrow> bool \<Rightarrow> nat \<Rightarrow> Tree \<Rightarrow>
     error + (ElementRef set \<times> Tree)" where
  "visit_recursive move_bounds marks start_element out =
     (case deref move_bounds start_element of
        Inl e \<Rightarrow> Inl e
      | Inr start \<Rightarrow>
          if \<not> (start_element \<notin> marks \<and> parents start \<noteq> []) then Inl AssertionFailed
          else
            (let is_root = (branches out = [])
             in visit_parents move_bounds (insert start_element marks) start_element is_root 0 out))"
| "visit_parents move_bounds marks start_element is_root parent_idx out =
     (case deref move_bounds start_element of
        Inl e \<Rightarrow> Inl e
      | Inr start \<Rightarrow>
          if \<not> parent_idx < length (parents start) then Inr (marks, out)
          else
            (case follow_branch move_bounds marks start_element start parent_idx of
               Inl e \<Rightarrow> Inl e
             | Inr (marks2, bpath, next_branch) \<Rightarrow>
                 (let branch = \<lparr>path = bpath, has_root = is_root, has_tip = (next_branch = None)\<rparr>;
                      out1 = out\<lparr>branches := branches out @ [branch]\<rparr>
                  in case next_branch of
                       None \<Rightarrow>
                         visit_parents move_bounds marks2 start_element is_root (parent_idx + 1) out1
                     | Some nb \<Rightarrow>
                         (case visit_recursive move_bounds marks2 nb out1 of
                            Inl e \<Rightarrow> Inl e
                          | Inr (marks3, out2) \<Rightarrow>
                              visit_parents move_bounds marks3 start_element is_root
                                (parent_idx + 1) out2))))"
  by pat_completeness auto
termination
proof (relation "measures
    [\<lambda>x. case x of Inl (mb, marks, s, out) \<Rightarrow> layers_above mb s
                   | Inr (mb, marks, s, is_root, k, out) \<Rightarrow> layers_above mb s,
     \<lambda>x. case x of Inl (mb, marks, s, out) \<Rightarrow> Suc (length (parents (element_at mb s)))
                   | Inr (mb, marks, s, is_root, k, out) \<Rightarrow> length (parents (element_at mb s)) - k]",
    goal_cases)
  case 1
  then show ?case by simp
next
  case 2
  then show ?case by simp
next
  case 3
  then show ?case by (auto simp: deref_Inr_iff)
next
  case 4
  then show ?case
    by (auto simp: deref_Inr_iff layers_above_def dest!: follow_branch_next_layer)
next
  case 5
  then show ?case by (auto simp: deref_Inr_iff)
qed

declare visit_recursive.simps [simp del]
declare visit_parents.simps [simp del]

text \<open>
  The caller in \<open>organic_draw_branches\<close>: after unmarking every element, each element of each
  layer but the last is offered as the start of a tree. \<open>visit_start\<close> is the body of the inner
  loop, \<open>start_elements\<close> the elements in the order of the two loops.
\<close>

definition visit_start ::
  "SupportElement list list \<Rightarrow> ElementRef set \<times> Tree list \<Rightarrow> ElementRef \<Rightarrow>
   error + (ElementRef set \<times> Tree list)" where
  "visit_start move_bounds st start_element =
     (case st of (marks, trees) \<Rightarrow>
        (let start = element_at move_bounds start_element
         in if start_element \<notin> marks \<and> parents start \<noteq> [] then
              (case visit_recursive move_bounds marks start_element
                      \<lparr>branches = [], first_layer_id = - 1\<rparr> of
                 Inl e \<Rightarrow> Inl e
               | Inr (marks', tree) \<Rightarrow>
                   (let trees1 = trees @ [tree]
                    in if \<not> branches (last trees1) \<noteq> [] then Inl AssertionFailed
                       else if lost (state start) then Inr (marks', trees1)
                       else if verylost (state start) then Inr (marks', trees1)
                       else Inr (marks', butlast trees1)))
            else Inr (marks, trees)))"

fun visit_starts ::
  "SupportElement list list \<Rightarrow> ElementRef set \<times> Tree list \<Rightarrow> ElementRef list \<Rightarrow>
   error + (ElementRef set \<times> Tree list)" where
  "visit_starts move_bounds st [] = Inr st"
| "visit_starts move_bounds st (start_element # rest) =
     (case visit_start move_bounds st start_element of
        Inl e \<Rightarrow> Inl e
      | Inr st' \<Rightarrow> visit_starts move_bounds st' rest)"

definition start_elements :: "SupportElement list list \<Rightarrow> ElementRef list" where
  "start_elements move_bounds =
     concat (map (\<lambda>layer_idx. map (\<lambda>i. (int layer_idx, int i))
                                  [0 ..< length (move_bounds ! layer_idx)])
                 [0 ..< length move_bounds - 1])"

definition extract_trees :: "SupportElement list list \<Rightarrow> error + Tree list" where
  "extract_trees move_bounds =
     (case visit_starts move_bounds ({}, []) (start_elements move_bounds) of
        Inl e \<Rightarrow> Inl e
      | Inr (marks, trees) \<Rightarrow> Inr trees)"

definition layer_of :: "SupportElement list list \<Rightarrow> ElementRef \<Rightarrow> int" where
  "layer_of move_bounds r = layer_idx (state (element_at move_bounds r))"

text \<open>
  \<open>appends_branches mb s r n out out'\<close>: the tree \<open>out'\<close> is \<open>out\<close> with branches appended,
  none of which starts at an element of a layer lower than the layer of \<open>s\<close>; exactly \<open>n\<close> of them
  start at \<open>s\<close> itself, and an appended branch has \<open>has_root\<close> set iff \<open>r\<close> holds and it
  starts at \<open>s\<close>.
\<close>

definition appends_branches ::
  "SupportElement list list \<Rightarrow> ElementRef \<Rightarrow> bool \<Rightarrow> nat \<Rightarrow> Tree \<Rightarrow> Tree \<Rightarrow> bool" where
  "appends_branches mb s r n out out' =
     (\<exists>new. out' = out\<lparr>branches := branches out @ new\<rparr> \<and>
            length (filter (\<lambda>b. hd (path b) = s) new) = n \<and>
            (\<forall>b \<in> set new. layer_of mb s \<le> layer_of mb (hd (path b)) \<and>
                            (has_root b \<longleftrightarrow> r \<and> hd (path b) = s)))"

text \<open>Scenario S3 of the specification: one element with two parents, both tips.\<close>

definition S3_move_bounds :: "SupportElement list list" where
  "S3_move_bounds =
     [[\<lparr>state = \<lparr>layer_idx = 0, lost = False, verylost = False, to_model_gracious = False,
                  result_on_layer = (0, 0)\<rparr>, parents = [0, 1]\<rparr>],
      [\<lparr>state = \<lparr>layer_idx = 1, lost = False, verylost = False, to_model_gracious = False,
                  result_on_layer = (0, 0)\<rparr>, parents = []\<rparr>,
       \<lparr>state = \<lparr>layer_idx = 1, lost = False, verylost = False, to_model_gracious = False,
                  result_on_layer = (0, 0)\<rparr>, parents = []\<rparr>]]"

text \<open>A lost root below a bifurcation at layer 1, one arm of which is a chain of two.\<close>

definition fork_move_bounds :: "SupportElement list list" where
  "fork_move_bounds =
     [[\<lparr>state = \<lparr>layer_idx = 0, lost = True, verylost = False, to_model_gracious = False,
                  result_on_layer = (0, 0)\<rparr>, parents = [0]\<rparr>],
      [\<lparr>state = \<lparr>layer_idx = 1, lost = False, verylost = False, to_model_gracious = False,
                  result_on_layer = (0, 0)\<rparr>, parents = [0, 1]\<rparr>],
      [\<lparr>state = \<lparr>layer_idx = 2, lost = False, verylost = False, to_model_gracious = False,
                  result_on_layer = (0, 0)\<rparr>, parents = [0]\<rparr>,
       \<lparr>state = \<lparr>layer_idx = 2, lost = False, verylost = False, to_model_gracious = False,
                  result_on_layer = (0, 0)\<rparr>, parents = []\<rparr>],
      [\<lparr>state = \<lparr>layer_idx = 3, lost = False, verylost = False, to_model_gracious = False,
                  result_on_layer = (0, 0)\<rparr>, parents = []\<rparr>]]"

text \<open>Two roots at layer 0, each below a tip; the second is verylost, the first is not.\<close>

definition two_roots_move_bounds :: "SupportElement list list" where
  "two_roots_move_bounds =
     [[\<lparr>state = \<lparr>layer_idx = 0, lost = False, verylost = False, to_model_gracious = False,
                  result_on_layer = (0, 0)\<rparr>, parents = [0]\<rparr>,
       \<lparr>state = \<lparr>layer_idx = 0, lost = False, verylost = True, to_model_gracious = False,
                  result_on_layer = (0, 0)\<rparr>, parents = [1]\<rparr>],
      [\<lparr>state = \<lparr>layer_idx = 1, lost = False, verylost = False, to_model_gracious = False,
                  result_on_layer = (0, 0)\<rparr>, parents = []\<rparr>,
       \<lparr>state = \<lparr>layer_idx = 1, lost = False, verylost = False, to_model_gracious = False,
                  result_on_layer = (0, 0)\<rparr>, parents = []\<rparr>]]"

subsection \<open>The sphere solver: organic_smooth_branches_avoid_collisions\<close>

definition to_2d :: "Vec3f \<Rightarrow> Vec2d" where
  "to_2d p = (case p of (x, y, z) \<Rightarrow> (x, y))"

definition to_3d :: "Vec2d \<Rightarrow> real \<Rightarrow> Vec3f" where
  "to_3d p z = (case p of (x, y) \<Rightarrow> (x, y, z))"

definition z_of :: "Vec3f \<Rightarrow> real" where
  "z_of p = (case p of (x, y, z) \<Rightarrow> z)"

definition add2 :: "Vec2d \<Rightarrow> Vec2d \<Rightarrow> Vec2d" where
  "add2 a b = (fst a + fst b, snd a + snd b)"

definition sub2 :: "Vec2d \<Rightarrow> Vec2d \<Rightarrow> Vec2d" where
  "sub2 a b = (fst a - fst b, snd a - snd b)"

definition scale2 :: "real \<Rightarrow> Vec2d \<Rightarrow> Vec2d" where
  "scale2 c a = (c * fst a, c * snd a)"

definition squaredNorm2 :: "Vec2d \<Rightarrow> real" where
  "squaredNorm2 a = fst a * fst a + snd a * snd a"

definition norm2 :: "Vec2d \<Rightarrow> real" where
  "norm2 a = sqrt (squaredNorm2 a)"

text \<open>
  Eigen's \<open>normalized()\<close>: the vector divided by its norm, and the vector itself where its
  squared norm is not positive.
\<close>

definition normalized2 :: "Vec2d \<Rightarrow> Vec2d" where
  "normalized2 a = (let z = squaredNorm2 a in if z > 0 then scale2 (1 / sqrt z) a else a)"

text \<open>\<open>position.head<2>() += v\<close>.\<close>

definition add_to_head2 :: "Vec3f \<Rightarrow> Vec2d \<Rightarrow> Vec3f" where
  "add_to_head2 p v = to_3d (add2 (to_2d p) v) (z_of p)"

definition sqr :: "real \<Rightarrow> real" where
  "sqr x = x * x"

text \<open>\<open>std::numeric_limits<double>::max()\<close>.\<close>

definition DBL_MAX :: real where
  "DBL_MAX = (2 - 1 / 2 ^ 52) * 2 ^ 1023"

text \<open>
  What the solver uses and this file does not define: the radius of an element, the
  conversions between scaled and metric coordinates, the height functions of the slicing
  parameters, the collision lines of a layer (\<open>get_collision_lower_bound_area\<close> followed by
  \<open>to_lines\<close> and \<open>unscaled\<close>), the nearest-line query (its result is the squared distance,
  negative where there is no hit, and \<open>hit_point_out\<close>), \<open>EPSILON\<close> and the largest
  \<open>coord_t\<close>.
\<close>

record solver_env =
  getRadius :: "SupportElementState \<Rightarrow> int"
  unscaled :: "int \<Rightarrow> real"
  scaled :: "real \<Rightarrow> int"
  layer_z :: "int \<Rightarrow> real"
  layer_idx_ceil :: "real \<Rightarrow> int"
  layer_idx_floor :: "real \<Rightarrow> int"
  layer_height :: real
  collision_lower_bound_lines :: "int \<Rightarrow> int \<Rightarrow> (int \<times> (Vec2d \<times> Vec2d) list) option"
  squared_distance_to_indexed_lines :: "(Vec2d \<times> Vec2d) list \<Rightarrow> Vec2d \<Rightarrow> real \<Rightarrow> real \<times> Vec2d"
  EPSILON :: real
  coord_t_max :: int

text \<open>
  The injected \<open>throw_on_cancel\<close> is a function of the number of calls made before: it
  returns (\<open>None\<close>) or throws (\<open>Some e\<close>). \<open>poll\<close> is one call, with the count of calls.
\<close>

definition poll :: "(nat \<Rightarrow> string option) \<Rightarrow> nat \<Rightarrow> error + nat" where
  "poll throw_on_cancel ncalls =
     (case throw_on_cancel ncalls of Some e \<Rightarrow> Inl (Cancelled e) | None \<Rightarrow> Inr (Suc ncalls))"

record LayerCollisionCache =
  min_element_radius :: int
  collision_radius :: int
  lines :: "(Vec2d \<times> Vec2d) list"

definition empty_cache_item :: "solver_env \<Rightarrow> LayerCollisionCache" where
  "empty_cache_item env = \<lparr>min_element_radius = coord_t_max env, collision_radius = 0, lines = []\<rparr>"

text \<open>The first loop: the least radius of the elements of each layer.\<close>

fun collect_min_radius ::
  "solver_env \<Rightarrow> SupportElement list list \<Rightarrow> LayerCollisionCache list \<Rightarrow>
   (ElementRef \<times> int) list \<Rightarrow> error + LayerCollisionCache list" where
  "collect_min_radius env move_bounds cache [] = Inr cache"
| "collect_min_radius env move_bounds cache (element # rest) =
     (case deref move_bounds (fst element) of
        Inl e \<Rightarrow> Inl e
      | Inr elem \<Rightarrow>
          (let layer_idx = layer_idx (state elem);
               num_layers = layer_idx + 1;
               cache1 = (if num_layers > int (length cache)
                         then cache @ replicate (nat num_layers - length cache) (empty_cache_item env)
                         else cache)
           in case at_index cache1 layer_idx of
                Inl e \<Rightarrow> Inl e
              | Inr l \<Rightarrow>
                  collect_min_radius env move_bounds
                    (cache1[nat layer_idx :=
                       l\<lparr>min_element_radius := min (min_element_radius l) (getRadius env (state elem))\<rparr>])
                    rest))"

text \<open>
  The second loop, over the layers from \<open>layer_idx\<close> (here \<open>lidx\<close>) on: the collision lines of each layer that
  has an element. \<open>filled\<close> holds the layers already treated.
\<close>

fun fill_collision_lines ::
  "solver_env \<Rightarrow> (nat \<Rightarrow> string option) \<Rightarrow> nat \<Rightarrow> int \<Rightarrow> LayerCollisionCache list \<Rightarrow>
   LayerCollisionCache list \<Rightarrow> error + (LayerCollisionCache list \<times> nat)" where
  "fill_collision_lines env throw_on_cancel ncalls lidx filled [] = Inr (filled, ncalls)"
| "fill_collision_lines env throw_on_cancel ncalls lidx filled (l # rest) =
     (if \<not> min_element_radius l \<noteq> coord_t_max env
      then fill_collision_lines env throw_on_cancel ncalls (lidx + 1)
             (filled @ [l\<lparr>min_element_radius := 0\<rparr>]) rest
      else
        (case collision_lower_bound_lines env lidx 0 of
           None \<Rightarrow> Inl AssertionFailed
         | Some res \<Rightarrow>
             (case poll throw_on_cancel ncalls of
                Inl e \<Rightarrow> Inl e
              | Inr ncalls1 \<Rightarrow>
                  fill_collision_lines env throw_on_cancel ncalls1 (lidx + 1)
                    (filled @ [l\<lparr>min_element_radius := 0, collision_radius := fst res,
                               lines := snd res\<rparr>]) rest)))"

record CollisionSphere =
  element :: SupportElement
  element_below_id :: int
  locked :: bool
  radius :: real
  position :: Vec3f
  prev_position :: Vec3f
  last_collision :: Vec3f
  last_collision_depth :: real
  min_z :: real
  max_z :: real
  layer_begin :: "32 word"
  layer_end :: "32 word"

text \<open>
  The braced initialiser of \<open>collision_spheres.push_back\<close>. \<open>element\<close> is a reference in the
  source; nothing writes the elements before the solver's last loop, so the record holds the
  element. The members the initialiser does not name are value-initialised (the two vectors
  are written before they are read, and are zero here) or take their default member
  initialisers.
\<close>

definition new_collision_sphere :: "solver_env \<Rightarrow> SupportElement \<Rightarrow> int \<Rightarrow> CollisionSphere" where
  "new_collision_sphere env elem link_down =
     \<lparr>element = elem,
      element_below_id = link_down,
      locked = (parents elem = [] \<or> (link_down = - 1 \<and> layer_idx (state elem) > 0)),
      radius = unscaled env (getRadius env (state elem)),
      position = to_3d (unscaled env (fst (result_on_layer (state elem))),
                        unscaled env (snd (result_on_layer (state elem))))
                   (layer_z env (layer_idx (state elem))),
      prev_position = (0, 0, 0),
      last_collision = (0, 0, 0),
      last_collision_depth = 0,
      min_z = - FLT_MAX,
      max_z = FLT_MAX,
      layer_begin = 0,
      layer_end = 0\<rparr>"

text \<open>The loop that creates the spheres and takes \<open>min_z\<close> from the sphere below.\<close>

fun create_spheres ::
  "solver_env \<Rightarrow> SupportElement list list \<Rightarrow> int list \<Rightarrow> CollisionSphere list \<Rightarrow>
   (ElementRef \<times> int) list \<Rightarrow> error + CollisionSphere list" where
  "create_spheres env move_bounds linear_data_layers collision_spheres [] = Inr collision_spheres"
| "create_spheres env move_bounds linear_data_layers collision_spheres (element_with_link # rest) =
     (case deref move_bounds (fst element_with_link) of
        Inl e \<Rightarrow> Inl e
      | Inr elem \<Rightarrow>
          (let link_down = snd element_with_link;
               collision_sphere = new_collision_sphere env elem link_down;
               pushed = collision_spheres @ [collision_sphere]
           in if link_down \<noteq> - 1 then
                (case at_index linear_data_layers (layer_idx (state elem) - 1) of
                   Inl e \<Rightarrow> Inl e
                 | Inr offset_below \<Rightarrow>
                     (case at_index pushed (offset_below + link_down) of
                        Inl e \<Rightarrow> Inl e
                      | Inr below \<Rightarrow>
                          create_spheres env move_bounds linear_data_layers
                            (collision_spheres @ [collision_sphere\<lparr>min_z := min_z below\<rparr>]) rest))
              else
                create_spheres env move_bounds linear_data_layers
                  (collision_spheres @ [collision_sphere\<lparr>min_z := z_of (position collision_sphere)\<rparr>])
                  rest))"

text \<open>The loop over the parents of sphere \<open>collision_sphere_id\<close> that lowers its \<open>max_z\<close>.\<close>

fun min_parent_max_z ::
  "CollisionSphere list \<Rightarrow> nat \<Rightarrow> int \<Rightarrow> int list \<Rightarrow> error + CollisionSphere list" where
  "min_parent_max_z collision_spheres collision_sphere_id offset_above [] = Inr collision_spheres"
| "min_parent_max_z collision_spheres collision_sphere_id offset_above (iparent # rest) =
     (case at_index collision_spheres (offset_above + iparent) of
        Inl e \<Rightarrow> Inl e
      | Inr parent \<Rightarrow>
          (let parent_z = max_z parent;
               collision_sphere = collision_spheres ! collision_sphere_id
           in min_parent_max_z
                (collision_spheres[collision_sphere_id :=
                   collision_sphere\<lparr>max_z := min (max_z collision_sphere) parent_z\<rparr>])
                collision_sphere_id offset_above rest))"

text \<open>
  The loop from the last sphere down to the first that propagates \<open>max_z\<close> from the tips;
  \<open>n\<close> is \<open>collision_sphere_id + 1\<close>.
\<close>

fun propagate_max_z :: "int list \<Rightarrow> CollisionSphere list \<Rightarrow> nat \<Rightarrow> error + CollisionSphere list" where
  "propagate_max_z linear_data_layers collision_spheres 0 = Inr collision_spheres"
| "propagate_max_z linear_data_layers collision_spheres (Suc collision_sphere_id) =
     (let collision_sphere = collision_spheres ! collision_sphere_id
      in if parents (element collision_sphere) = [] then
           propagate_max_z linear_data_layers
             (collision_spheres[collision_sphere_id :=
                collision_sphere\<lparr>max_z := z_of (position collision_sphere)\<rparr>])
             collision_sphere_id
         else
           (case at_index linear_data_layers (layer_idx (state (element collision_sphere)) + 1) of
              Inl e \<Rightarrow> Inl e
            | Inr offset_above \<Rightarrow>
                (case min_parent_max_z collision_spheres collision_sphere_id offset_above
                        (parents (element collision_sphere)) of
                   Inl e \<Rightarrow> Inl e
                 | Inr collision_spheres1 \<Rightarrow>
                     propagate_max_z linear_data_layers collision_spheres1 collision_sphere_id)))"

text \<open>The loop that limits the Z span and sets the window of layers of each sphere.\<close>

definition limit_span :: "solver_env \<Rightarrow> nat \<Rightarrow> CollisionSphere \<Rightarrow> error + CollisionSphere" where
  "limit_span env cache_size collision_sphere =
     (let min_z1 = max (min_z collision_sphere)
                       (z_of (position collision_sphere) - radius collision_sphere);
          max_z1 = min (max_z collision_sphere)
                       (z_of (position collision_sphere) + radius collision_sphere);
          layer_begin1 = (word_of_int
                            (min (layer_idx (state (element collision_sphere)))
                                 (layer_idx_ceil env min_z1)) :: 32 word)
      in if \<not> uint layer_begin1 < int cache_size then Inl AssertionFailed
         else Inr (collision_sphere\<lparr>
                min_z := min_z1, max_z := max_z1, layer_begin := layer_begin1,
                layer_end := word_of_int
                  (min (int cache_size)
                       (max (layer_idx (state (element collision_sphere)))
                            (layer_idx_floor env max_z1) + 1))\<rparr>))"

fun limit_spans :: "solver_env \<Rightarrow> nat \<Rightarrow> CollisionSphere list \<Rightarrow> error + CollisionSphere list" where
  "limit_spans env cache_size [] = Inr []"
| "limit_spans env cache_size (collision_sphere # rest) =
     (case limit_span env cache_size collision_sphere of
        Inl e \<Rightarrow> Inl e
      | Inr collision_sphere1 \<Rightarrow>
          (case limit_spans env cache_size rest of
             Inl e \<Rightarrow> Inl e
           | Inr rest1 \<Rightarrow> Inr (collision_sphere1 # rest1)))"


text \<open>
  The collision of the layers \<open>layer_id\<close>, ..., \<open>layer_end - 1\<close> against a sphere:
  the loop over \<open>layer_id\<close>, which is a \<open>uint32_t\<close> and ends when it equals \<open>layer_end\<close>.
  \<open>depth\<close> and \<open>collision\<close> are the running \<open>last_collision_depth\<close> and \<open>last_collision\<close>.
  The difference \<open>layer_id - layer_idx\<close> is taken in \<open>uint32_t\<close>.
\<close>

function collide_layers ::
  "solver_env \<Rightarrow> LayerCollisionCache list \<Rightarrow> CollisionSphere \<Rightarrow> 32 word \<Rightarrow> real \<Rightarrow> Vec3f \<Rightarrow>
   error + (real \<times> Vec3f)" where
  "collide_layers env layer_collision_cache collision_sphere layer_id depth collision =
     (if layer_id \<noteq> layer_end collision_sphere then
        (let dz = real (unat (layer_id -
                     word_of_int (layer_idx (state (element collision_sphere))))) * layer_height env;
             r2 = sqr (radius collision_sphere) - sqr dz
         in if r2 > 0 then
              (case at_index layer_collision_cache (uint layer_id) of
                 Inl e \<Rightarrow> Inl e
               | Inr layer_collision_cache_item \<Rightarrow>
                   if lines layer_collision_cache_item \<noteq> [] then
                     (let hit = squared_distance_to_indexed_lines env
                                  (lines layer_collision_cache_item)
                                  (to_2d (position collision_sphere)) r2;
                          dist = sqrt (fst hit)
                      in if dist \<ge> 0 then
                           (let collision_depth = sqrt r2 - dist
                            in if collision_depth > depth
                               then collide_layers env layer_collision_cache collision_sphere
                                      (layer_id + 1) collision_depth
                                      (to_3d (snd hit) (layer_z env (uint layer_id)))
                               else collide_layers env layer_collision_cache collision_sphere
                                      (layer_id + 1) depth collision)
                         else collide_layers env layer_collision_cache collision_sphere
                                (layer_id + 1) depth collision)
                   else collide_layers env layer_collision_cache collision_sphere
                          (layer_id + 1) depth collision)
            else collide_layers env layer_collision_cache collision_sphere
                   (layer_id + 1) depth collision)
      else Inr (depth, collision))"
  by pat_completeness auto

lemma steps_to_end_decrease:
  fixes layer_id :: "32 word"
  assumes "layer_id \<noteq> l_end"
  shows "unat (l_end - (layer_id + 1)) < unat (l_end - layer_id)"
proof -
  have ne: "l_end - layer_id \<noteq> 0" using assms by simp
  have eq: "l_end - (layer_id + 1) = (l_end - layer_id) - 1" by simp
  have "unat ((l_end - layer_id) - 1) < unat (l_end - layer_id)"
    using ne by (simp add: unat_minus_one unat_gt_0)
  then show ?thesis by (simp only: eq)
qed

termination collide_layers
  by (relation "measure (\<lambda>(env, cache, s, layer_id, depth, collision). unat (layer_end s - layer_id))")
    (simp_all add: steps_to_end_decrease)

declare collide_layers.simps [simp del]

definition collision_extra_gap :: real where
  "collision_extra_gap = 0.1"

definition max_nudge_collision_avoidance :: real where
  "max_nudge_collision_avoidance = 0.5"

definition max_nudge_smoothing :: real where
  "max_nudge_smoothing = 0.2"

definition num_iter :: nat where
  "num_iter = 100"

definition smoothing_factor :: real where
  "smoothing_factor = 0.5"

text \<open>The nudge away from the collision, the body of \<open>if (last_collision_depth > 0)\<close>
  after the count of the moved spheres.\<close>

definition nudge_away :: "CollisionSphere \<Rightarrow> CollisionSphere" where
  "nudge_away collision_sphere =
     (let nudge_dist = min (max 0 (last_collision_depth collision_sphere + collision_extra_gap))
                           max_nudge_collision_avoidance;
          nudge_vector = scale2 nudge_dist
                           (normalized2 (sub2 (to_2d (position collision_sphere))
                                              (to_2d (last_collision collision_sphere))))
      in collision_sphere\<lparr>position :=
           add_to_head2 (position collision_sphere) (scale2 nudge_dist nudge_vector)\<rparr>)"

text \<open>The loop over the parents of the Laplacian smoothing; \<open>w\<close> is the radius of the sphere.\<close>

fun add_parents ::
  "CollisionSphere list \<Rightarrow> int \<Rightarrow> real \<Rightarrow> Vec2d \<times> real \<Rightarrow> int list \<Rightarrow> error + (Vec2d \<times> real)" where
  "add_parents collision_spheres offset_above w acc [] = Inr acc"
| "add_parents collision_spheres offset_above w acc (iparent # rest) =
     (case at_index collision_spheres (offset_above + iparent) of
        Inl e \<Rightarrow> Inl e
      | Inr parent \<Rightarrow>
          add_parents collision_spheres offset_above w
            (add2 (fst acc) (scale2 w (to_2d (prev_position parent))), snd acc + w) rest)"

text \<open>\<open>avg\<close> and \<open>weight\<close> before the division: the parents, then the sphere below.\<close>

definition weighted_neighbours ::
  "int list \<Rightarrow> CollisionSphere list \<Rightarrow> CollisionSphere \<Rightarrow> error + (Vec2d \<times> real)" where
  "weighted_neighbours linear_data_layers collision_spheres collision_sphere =
     (case at_index linear_data_layers (layer_idx (state (element collision_sphere)) + 1) of
        Inl e \<Rightarrow> Inl e
      | Inr offset_above \<Rightarrow>
          (case add_parents collision_spheres offset_above (radius collision_sphere) ((0, 0), 0)
                  (parents (element collision_sphere)) of
             Inl e \<Rightarrow> Inl e
           | Inr (avg, weight) \<Rightarrow>
               if element_below_id collision_sphere \<noteq> - 1 then
                 (case at_index linear_data_layers
                         (layer_idx (state (element collision_sphere)) - 1) of
                    Inl e \<Rightarrow> Inl e
                  | Inr offset_below \<Rightarrow>
                      (case at_index collision_spheres
                              (offset_below + element_below_id collision_sphere) of
                         Inl e \<Rightarrow> Inl e
                       | Inr below \<Rightarrow>
                           (let w = weight
                            in Inr (add2 avg (scale2 w (to_2d (prev_position below))),
                                    weight + w))))
               else Inr (avg, weight)))"

text \<open>
  The Laplacian smoothing of one sphere. Where \<open>weight\<close> is zero the source divides by
  zero and the position is no longer a number: the model ends with \<open>DivisionByZero\<close>.
\<close>

definition laplacian_smoothing ::
  "int list \<Rightarrow> CollisionSphere list \<Rightarrow> CollisionSphere \<Rightarrow> error + CollisionSphere" where
  "laplacian_smoothing linear_data_layers collision_spheres collision_sphere =
     (case weighted_neighbours linear_data_layers collision_spheres collision_sphere of
        Inl e \<Rightarrow> Inl e
      | Inr (avg_sum, weight) \<Rightarrow>
          if weight = 0 then Inl DivisionByZero
          else
            (let avg = scale2 (1 / weight) avg_sum;
                 old_pos = to_2d (position collision_sphere);
                 new_pos = add2 (scale2 (1 - smoothing_factor) old_pos) (scale2 smoothing_factor avg);
                 shift = sub2 new_pos old_pos;
                 nudge_dist_max = norm2 shift;
                 nudge_dist = min (max 0 nudge_dist_max) max_nudge_smoothing
             in Inr (collision_sphere\<lparr>position :=
                       add_to_head2 (position collision_sphere)
                         (scale2 nudge_dist (normalized2 shift))\<rparr>)))"

text \<open>
  The first half of the body of the parallel loop for a sphere that is not locked: the
  collision against the layers of its window, the count of \<open>num_moved\<close> (the flag returned)
  and the nudge away from the collision.
\<close>

definition avoid_collision ::
  "solver_env \<Rightarrow> LayerCollisionCache list \<Rightarrow> CollisionSphere \<Rightarrow> error + (CollisionSphere \<times> bool)" where
  "avoid_collision env layer_collision_cache collision_sphere =
     (case collide_layers env layer_collision_cache collision_sphere
             (layer_begin collision_sphere) (- DBL_MAX) (last_collision collision_sphere) of
        Inl e \<Rightarrow> Inl e
      | Inr (depth, collision) \<Rightarrow>
          (let sphere1 = collision_sphere\<lparr>last_collision_depth := depth,
                                          last_collision := collision\<rparr>
           in if last_collision_depth sphere1 > 0
              then Inr (nudge_away sphere1, last_collision_depth sphere1 > EPSILON env)
              else Inr (sphere1, False)))"

text \<open>The body of the parallel loop for a sphere that is not locked, before the call of
  \<open>throw_on_cancel\<close>.\<close>

definition update_sphere ::
  "solver_env \<Rightarrow> LayerCollisionCache list \<Rightarrow> int list \<Rightarrow> CollisionSphere list \<Rightarrow>
   CollisionSphere \<Rightarrow> error + (CollisionSphere \<times> bool)" where
  "update_sphere env layer_collision_cache linear_data_layers collision_spheres collision_sphere =
     (case avoid_collision env layer_collision_cache collision_sphere of
        Inl e \<Rightarrow> Inl e
      | Inr (sphere2, moved) \<Rightarrow>
          (case laplacian_smoothing linear_data_layers collision_spheres sphere2 of
             Inl e \<Rightarrow> Inl e
           | Inr sphere3 \<Rightarrow> Inr (sphere3, moved)))"

text \<open>
  The parallel loop over the spheres, run in the order of the indices. Each sphere is
  updated from its own fields and from \<open>prev_position\<close> of other spheres, which the loop does
  not write: \<open>collision_spheres\<close> is the vector as the loop found it, \<open>todo\<close> the spheres
  still to treat. The result: the spheres treated, \<open>num_moved\<close>, the count of calls of
  \<open>throw_on_cancel\<close>.
\<close>

fun update_spheres ::
  "solver_env \<Rightarrow> (nat \<Rightarrow> string option) \<Rightarrow> LayerCollisionCache list \<Rightarrow> int list \<Rightarrow>
   CollisionSphere list \<Rightarrow> CollisionSphere list \<Rightarrow> nat \<Rightarrow>
   error + (CollisionSphere list \<times> nat \<times> nat)" where
  "update_spheres env throw_on_cancel layer_collision_cache linear_data_layers collision_spheres
     [] ncalls = Inr ([], 0, ncalls)"
| "update_spheres env throw_on_cancel layer_collision_cache linear_data_layers collision_spheres
     (collision_sphere # todo) ncalls =
     (if \<not> locked collision_sphere then
        (case update_sphere env layer_collision_cache linear_data_layers collision_spheres
                collision_sphere of
           Inl e \<Rightarrow> Inl e
         | Inr (sphere1, moved) \<Rightarrow>
             (case poll throw_on_cancel ncalls of
                Inl e \<Rightarrow> Inl e
              | Inr ncalls1 \<Rightarrow>
                  (case update_spheres env throw_on_cancel layer_collision_cache
                          linear_data_layers collision_spheres todo ncalls1 of
                     Inl e \<Rightarrow> Inl e
                   | Inr (rest, num_moved, ncalls2) \<Rightarrow>
                       Inr (sphere1 # rest, (if moved then 1 else 0) + num_moved, ncalls2))))
      else
        (case update_spheres env throw_on_cancel layer_collision_cache linear_data_layers
                collision_spheres todo ncalls of
           Inl e \<Rightarrow> Inl e
         | Inr (rest, num_moved, ncalls2) \<Rightarrow> Inr (collision_sphere # rest, num_moved, ncalls2)))"

text \<open>One pass of the solver: the backup of the positions, then the parallel loop.\<close>

definition solver_pass ::
  "solver_env \<Rightarrow> (nat \<Rightarrow> string option) \<Rightarrow> LayerCollisionCache list \<Rightarrow> int list \<Rightarrow>
   CollisionSphere list \<Rightarrow> nat \<Rightarrow> error + (CollisionSphere list \<times> nat \<times> nat)" where
  "solver_pass env throw_on_cancel layer_collision_cache linear_data_layers collision_spheres ncalls =
     (let backed_up = map (\<lambda>collision_sphere.
                             collision_sphere\<lparr>prev_position := position collision_sphere\<rparr>)
                          collision_spheres
      in update_spheres env throw_on_cancel layer_collision_cache linear_data_layers
           backed_up backed_up ncalls)"

text \<open>
  The loop \<open>for (iter = 0; iter < num_iter; ++ iter)\<close> with \<open>remaining = num_iter - iter\<close>.
  Beside the spheres and the count of calls it returns, for the statement of the properties,
  the history of the passes it ran: for each pass, in order, \<open>num_moved\<close> and the spheres at
  its end.
\<close>

fun solver_passes ::
  "solver_env \<Rightarrow> (nat \<Rightarrow> string option) \<Rightarrow> LayerCollisionCache list \<Rightarrow> int list \<Rightarrow> nat \<Rightarrow>
   CollisionSphere list \<Rightarrow> nat \<Rightarrow>
   error + (CollisionSphere list \<times> (nat \<times> CollisionSphere list) list \<times> nat)" where
  "solver_passes env throw_on_cancel layer_collision_cache linear_data_layers 0
     collision_spheres ncalls = Inr (collision_spheres, [], ncalls)"
| "solver_passes env throw_on_cancel layer_collision_cache linear_data_layers (Suc remaining)
     collision_spheres ncalls =
     (case solver_pass env throw_on_cancel layer_collision_cache linear_data_layers
             collision_spheres ncalls of
        Inl e \<Rightarrow> Inl e
      | Inr (spheres1, num_moved, ncalls1) \<Rightarrow>
          if num_moved = 0 then Inr (spheres1, [(num_moved, spheres1)], ncalls1)
          else
            (case solver_passes env throw_on_cancel layer_collision_cache linear_data_layers
                    remaining spheres1 ncalls1 of
               Inl e \<Rightarrow> Inl e
             | Inr (spheres2, history, ncalls2) \<Rightarrow>
                 Inr (spheres2, (num_moved, spheres1) # history, ncalls2)))"

text \<open>The last loop: the positions, scaled, are written to the elements.\<close>

definition set_result_on_layer ::
  "SupportElement list list \<Rightarrow> ElementRef \<Rightarrow> int \<times> int \<Rightarrow> SupportElement list list" where
  "set_result_on_layer move_bounds r p =
     (let layer = move_bounds ! nat (fst r);
          elem = layer ! nat (snd r)
      in move_bounds[nat (fst r) :=
           layer[nat (snd r) := elem\<lparr>state := (state elem)\<lparr>result_on_layer := p\<rparr>\<rparr>]])"

fun write_back ::
  "solver_env \<Rightarrow> SupportElement list list \<Rightarrow> (ElementRef \<times> int) list \<Rightarrow> CollisionSphere list \<Rightarrow>
   SupportElement list list" where
  "write_back env move_bounds (element_with_link # elements) (collision_sphere # spheres) =
     write_back env
       (set_result_on_layer move_bounds (fst element_with_link)
          (scaled env (fst (to_2d (position collision_sphere))),
           scaled env (snd (to_2d (position collision_sphere)))))
       elements spheres"
| "write_back env move_bounds elements spheres = move_bounds"

text \<open>
  The solver up to the end of its iterations: the layer cache, the spheres, the passes. It
  reads \<open>move_bounds\<close> and does not write it.
\<close>

definition solve_spheres ::
  "solver_env \<Rightarrow> (nat \<Rightarrow> string option) \<Rightarrow> nat \<Rightarrow> SupportElement list list \<Rightarrow>
   (ElementRef \<times> int) list \<Rightarrow> int list \<Rightarrow>
   error + (CollisionSphere list \<times> CollisionSphere list \<times> (nat \<times> CollisionSphere list) list \<times> nat)" where
  "solve_spheres env throw_on_cancel ncalls move_bounds elements_with_link_down linear_data_layers =
     (case collect_min_radius env move_bounds [] elements_with_link_down of
        Inl e \<Rightarrow> Inl e
      | Inr cache0 \<Rightarrow>
     (case poll throw_on_cancel ncalls of
        Inl e \<Rightarrow> Inl e
      | Inr ncalls1 \<Rightarrow>
     (case fill_collision_lines env throw_on_cancel ncalls1 0 [] cache0 of
        Inl e \<Rightarrow> Inl e
      | Inr (layer_collision_cache, ncalls2) \<Rightarrow>
     (case create_spheres env move_bounds linear_data_layers [] elements_with_link_down of
        Inl e \<Rightarrow> Inl e
      | Inr spheres0 \<Rightarrow>
     (case propagate_max_z linear_data_layers spheres0 (length spheres0) of
        Inl e \<Rightarrow> Inl e
      | Inr spheres1 \<Rightarrow>
     (case limit_spans env (length layer_collision_cache) spheres1 of
        Inl e \<Rightarrow> Inl e
      | Inr spheres2 \<Rightarrow>
     (case poll throw_on_cancel ncalls2 of
        Inl e \<Rightarrow> Inl e
      | Inr ncalls3 \<Rightarrow>
     (case solver_passes env throw_on_cancel layer_collision_cache linear_data_layers num_iter
             spheres2 ncalls3 of
        Inl e \<Rightarrow> Inl e
      | Inr (spheres3, history, ncalls4) \<Rightarrow> Inr (spheres2, spheres3, history, ncalls4)))))))))"

text \<open>
  \<open>organic_smooth_branches_avoid_collisions\<close>: the outcome (\<open>None\<close> for a normal return) and
  \<open>move_bounds\<close> as the function leaves it.
\<close>

definition organic_smooth_branches_avoid_collisions ::
  "solver_env \<Rightarrow> (nat \<Rightarrow> string option) \<Rightarrow> nat \<Rightarrow> SupportElement list list \<Rightarrow>
   (ElementRef \<times> int) list \<Rightarrow> int list \<Rightarrow> error option \<times> SupportElement list list" where
  "organic_smooth_branches_avoid_collisions env throw_on_cancel ncalls move_bounds
     elements_with_link_down linear_data_layers =
     (case solve_spheres env throw_on_cancel ncalls move_bounds elements_with_link_down
             linear_data_layers of
        Inl e \<Rightarrow> (Some e, move_bounds)
      | Inr (spheres_before, collision_spheres, history, ncalls1) \<Rightarrow>
          (None, write_back env move_bounds elements_with_link_down collision_spheres))"

subsection \<open>Root propagation in organic_draw_branches\<close>

text \<open>
  \<open>Polygons\<close> is a list of polygons of a type \<open>'p\<close> that this file does not look into. What
  the block uses of the polygon library and of the volumes: \<open>diff_clipped\<close>,
  \<open>area\<close> (here \<open>polygons_area\<close>) and \<open>volumes.getCollision\<close>.
\<close>

record 'p polygon_env =
  diff_clipped :: "'p list \<Rightarrow> 'p list \<Rightarrow> 'p list"
  polygons_area :: "'p list \<Rightarrow> real"
  getCollision :: "int \<Rightarrow> int \<Rightarrow> bool \<Rightarrow> 'p list"

record 'p BottomExtraSlice =
  polygons :: "'p list"
  area :: real

definition M_PI :: real where
  "M_PI = pi"

text \<open>
  The loop \<open>for (layer_idx = layer_begin - 1; layer_idx >= layer_bottommost; -- layer_idx)\<close>;
  \<open>front\<close> is \<open>slices.front()\<close>.
\<close>

function drop_down ::
  "'p polygon_env \<Rightarrow> 'p list \<Rightarrow> real \<Rightarrow> int \<Rightarrow> int \<Rightarrow> 'p list \<Rightarrow> 'p BottomExtraSlice list \<Rightarrow>
   'p BottomExtraSlice list" where
  "drop_down env front support_area_stop layer_bottommost lidx rest_support bottom_extra_slices =
     (if lidx \<ge> layer_bottommost then
        (let rest_support1 = diff_clipped env (if rest_support = [] then front else rest_support)
                               (getCollision env 0 lidx False);
             rest_support_area = polygons_area env rest_support1
         in if rest_support_area < support_area_stop then bottom_extra_slices
            else drop_down env front support_area_stop layer_bottommost (lidx - 1) rest_support1
                   (bottom_extra_slices @
                      [\<lparr>polygons = rest_support1, area = rest_support_area\<rparr>]))
      else bottom_extra_slices)"
  by pat_completeness auto
termination
  by (relation "measure (\<lambda>(env, front, stop, layer_bottommost, lidx, rest, slices).
                            nat (lidx - layer_bottommost + 1))") auto

declare drop_down.simps [simp del]

text \<open>
  The block \<open>else if (layer_begin > 0)\<close> up to the end of the loop: the slices dropped
  below the root. \<open>bottom_radius\<close> is \<open>getRadius(config, branch.path.front()->state)\<close>,
  \<open>config_layer_height\<close> and \<open>config_branch_radius\<close> are \<open>config.layer_height\<close> and
  \<open>config.branch_radius\<close>, \<open>is_verylost\<close> is \<open>branch.path.front()->state.verylost\<close> and
  \<open>lbegin\<close> is \<open>layer_begin\<close>. The quotient of two \<open>coord_t\<close> truncates toward zero, and a zero
  \<open>config.layer_height\<close> is the outcome \<open>DivisionByZero\<close>.
\<close>

definition layers_propagate_max :: "int \<Rightarrow> int \<Rightarrow> int" where
  "layers_propagate_max bottom_radius config_layer_height =
     (5 * bottom_radius) sdiv config_layer_height"

definition support_area_stop :: "int \<Rightarrow> int \<Rightarrow> real" where
  "support_area_stop bottom_radius config_branch_radius =
     (let support_area_min_radius = M_PI * sqr (real_of_int config_branch_radius)
      in max (0.2 * M_PI * sqr (real_of_int bottom_radius)) (0.5 * support_area_min_radius))"

definition drop_down_root ::
  "'p polygon_env \<Rightarrow> int \<Rightarrow> int \<Rightarrow> int \<Rightarrow> bool \<Rightarrow> int \<Rightarrow> 'p list \<Rightarrow>
   error + 'p BottomExtraSlice list" where
  "drop_down_root env bottom_radius config_layer_height config_branch_radius is_verylost lbegin
     front =
     (if config_layer_height = 0 then Inl DivisionByZero
      else
        (let layer_bottommost =
               (if is_verylost then 0
                else max 0 (lbegin - layers_propagate_max bottom_radius config_layer_height))
         in Inr (drop_down env front (support_area_stop bottom_radius config_branch_radius)
                   layer_bottommost (lbegin - 1) [] [])))"

text \<open>
  The conditions around the block: the first slice is not empty, the branch has the root,
  the root does not rest graciously on the model, and \<open>layer_begin > 0\<close>. The result is the
  list of the slices dropped below the root, empty where the block is not entered.
\<close>

definition root_extra_slices ::
  "'p polygon_env \<Rightarrow> int \<Rightarrow> int \<Rightarrow> int \<Rightarrow> bool \<Rightarrow> bool \<Rightarrow> bool \<Rightarrow> int \<Rightarrow> 'p list \<Rightarrow>
   error + 'p BottomExtraSlice list" where
  "root_extra_slices env bottom_radius config_layer_height config_branch_radius branch_has_root
     is_to_model_gracious is_verylost lbegin front =
     (if front = [] then Inr []
      else if branch_has_root then
        (if is_to_model_gracious then Inr []
         else if lbegin > 0 then
           drop_down_root env bottom_radius config_layer_height config_branch_radius is_verylost
             lbegin front
         else Inr [])
      else Inr [])"

subsection \<open>An example: the solver on a chain of three elements\<close>

text \<open>
  A chain of three elements at scaled XY (0, 500), on the layers 0, 1 and 2, with radius
  1000 scaled units; one metric unit is 1000 scaled units and the layers are one unit high.
  With \<open>wall\<close> the object has, on layer 1, the collision line from (-2, 0) to (2, 0); the
  nearest-line query is the distance to the X axis.
\<close>

definition chain_env :: "bool \<Rightarrow> solver_env" where
  "chain_env wall =
     \<lparr>getRadius = (\<lambda>st. 1000),
      unscaled = (\<lambda>c. real_of_int c / 1000),
      scaled = (\<lambda>x. \<lfloor>x * 1000\<rfloor>),
      layer_z = (\<lambda>l. real_of_int l),
      layer_idx_ceil = (\<lambda>z. \<lceil>z\<rceil>),
      layer_idx_floor = (\<lambda>z. \<lfloor>z\<rfloor>),
      layer_height = 1,
      collision_lower_bound_lines =
        (\<lambda>l r. if wall \<and> l = 1 then Some (0, [((- 2, 0), (2, 0))]) else Some (0, [])),
      squared_distance_to_indexed_lines =
        (\<lambda>ls p r2. if snd p * snd p \<le> r2 then (snd p * snd p, (fst p, 0)) else (- 1, (0, 0))),
      EPSILON = 1 / 10000,
      coord_t_max = 2147483647\<rparr>"

definition chain_element :: "int \<Rightarrow> int list \<Rightarrow> SupportElement" where
  "chain_element l ps =
     \<lparr>state = \<lparr>layer_idx = l, lost = False, verylost = False, to_model_gracious = False,
                result_on_layer = (0, 500)\<rparr>, parents = ps\<rparr>"

definition chain_move_bounds :: "SupportElement list list" where
  "chain_move_bounds = [[chain_element 0 [0]], [chain_element 1 [0]], [chain_element 2 []]]"

definition chain_elements :: "(ElementRef \<times> int) list" where
  "chain_elements = [((0, 0), - 1), ((1, 0), 0), ((2, 0), 0)]"

definition chain_layers :: "int list" where
  "chain_layers = [0, 1, 2, 3]"

definition chain_cache :: "bool \<Rightarrow> LayerCollisionCache list" where
  "chain_cache wall =
     [\<lparr>min_element_radius = 0, collision_radius = 0, lines = []\<rparr>,
      \<lparr>min_element_radius = 0, collision_radius = 0,
        lines = (if wall then [((- 2, 0), (2, 0))] else [])\<rparr>,
      \<lparr>min_element_radius = 0, collision_radius = 0, lines = []\<rparr>]"

text \<open>The sphere of the chain on layer \<open>l\<close>, with the fields that vary.\<close>

definition chain_sphere ::
  "int \<Rightarrow> real \<Rightarrow> Vec2d \<Rightarrow> Vec3f \<Rightarrow> real \<Rightarrow> CollisionSphere" where
  "chain_sphere l y prev collision depth =
     \<lparr>element = chain_element l (if l = 2 then [] else [0]),
      element_below_id = (if l = 0 then - 1 else 0),
      locked = (l = 2),
      radius = 1,
      position = (0, y, real_of_int l),
      prev_position = (fst prev, snd prev, if prev = (0, 0) then 0 else real_of_int l),
      last_collision = collision,
      last_collision_depth = depth,
      min_z = (if l = 2 then 1 else 0),
      max_z = (if l = 0 then 1 else 2),
      layer_begin = (if l = 2 then 1 else 0),
      layer_end = (if l = 0 then 2 else 3)\<rparr>"

definition chain_before :: "CollisionSphere list" where
  "chain_before =
     [chain_sphere 0 (1 / 2) (0, 0) (0, 0, 0) 0,
      chain_sphere 1 (1 / 2) (0, 0) (0, 0, 0) 0,
      chain_sphere 2 (1 / 2) (0, 0) (0, 0, 0) 0]"

definition never_cancel :: "nat \<Rightarrow> string option" where
  "never_cancel k = None"

definition cancel_at_6 :: "nat \<Rightarrow> string option" where
  "cancel_at_6 k = (if k = 6 then Some ''cancelled'' else None)"

definition cancel_at_7 :: "nat \<Rightarrow> string option" where
  "cancel_at_7 k = (if k = 7 then Some ''cancelled'' else None)"

definition quiet_after :: "CollisionSphere list" where
  "quiet_after =
     [chain_sphere 0 (1 / 2) (0, 1 / 2) (0, 0, 0) (- DBL_MAX),
      chain_sphere 1 (1 / 2) (0, 1 / 2) (0, 0, 0) (- DBL_MAX),
      chain_sphere 2 (1 / 2) (0, 1 / 2) (0, 0, 0) 0]"

definition wall_after_1 :: "CollisionSphere list" where
  "wall_after_1 =
     [chain_sphere 0 (1 / 2) (0, 1 / 2) (0, 0, 0) (- DBL_MAX),
      chain_sphere 1 (5 / 8) (0, 1 / 2) (0, 0, 1) (1 / 2),
      chain_sphere 2 (1 / 2) (0, 1 / 2) (0, 0, 0) 0]"

subsection \<open>An example: a root dropped down three layers\<close>

definition example_polygons :: "nat polygon_env" where
  "example_polygons =
     \<lparr>diff_clipped = (\<lambda>subject clip. filter (\<lambda>p. p \<notin> set clip) subject),
      polygons_area = (\<lambda>ps. pi * real (length ps)),
      getCollision = (\<lambda>radius lidx min_xy_dist.
         if lidx = 2 then [4] else if lidx = 1 then [3] else [1, 2])\<rparr>"

definition example_front :: "nat list" where
  "example_front = [0, 1, 2, 3, 4]"

definition covered_polygons :: "nat polygon_env" where
  "covered_polygons =
     \<lparr>diff_clipped = (\<lambda>subject clip. filter (\<lambda>p. p \<notin> set clip) subject),
      polygons_area = (\<lambda>ps. pi * real (length ps)),
      getCollision = (\<lambda>radius lidx min_xy_dist.
         if lidx = 2 then [0, 1, 2, 3, 4] else if lidx = 1 then [3] else [1, 2])\<rparr>"

section \<open>Properties\<close>

subsection \<open>triangulate_strip\<close>

lemma closest_on_second_range:
  "ibegin2 \<le> i \<Longrightarrow> ibegin2 \<le> istart2 \<Longrightarrow> istart2 < iend2 \<Longrightarrow>
   ibegin2 \<le> closest_on_second vs p1 i iend2 d2min istart2 \<and>
   closest_on_second vs p1 i iend2 d2min istart2 < iend2"
proof (induction vs p1 i iend2 d2min istart2 rule: closest_on_second.induct)
  case (1 vs p1 i iend2 d2min istart2)
  show ?case
  proof (cases "i < iend2")
    case False
    then show ?thesis using "1.prems" by (simp add: closest_on_second.simps [of vs p1 i])
  next
    case True
    show ?thesis
    proof (cases "squaredNorm3 (sub3 (vs ! nat i) p1) < d2min")
      case less: True
      have "ibegin2 \<le> closest_on_second vs p1 (i + 1) iend2 (squaredNorm3 (sub3 (vs ! nat i) p1)) i \<and>
            closest_on_second vs p1 (i + 1) iend2 (squaredNorm3 (sub3 (vs ! nat i) p1)) i < iend2"
        using "1.IH"(1) [OF True refl refl less] True "1.prems" by simp
      then show ?thesis using True less
        by (simp add: closest_on_second.simps [of vs p1 i] Let_def)
    next
      case nless: False
      have "ibegin2 \<le> closest_on_second vs p1 (i + 1) iend2 d2min istart2 \<and>
            closest_on_second vs p1 (i + 1) iend2 d2min istart2 < iend2"
        using "1.IH"(2) [OF True refl refl nless] True "1.prems" by simp
      then show ?thesis using True nless
        by (simp add: closest_on_second.simps [of vs p1 i] Let_def)
    qed
  qed
qed

lemma next_in_ring_range:
  "ibegin \<le> u \<Longrightarrow> u < iend \<Longrightarrow> ibegin \<le> next_in_ring u ibegin iend \<and> next_in_ring u ibegin iend < iend"
  by (auto simp: next_in_ring_def)

lemma strip_loop_spec:
  "ibegin1 \<le> u \<Longrightarrow> u < iend1 \<Longrightarrow> ibegin2 \<le> v \<Longrightarrow> v < iend2 \<Longrightarrow>
   \<exists>new. strip_loop vs ibegin1 iend1 ibegin2 iend2 u v n1 n2 acc = acc @ new \<and>
         length new = n1 + n2 \<and>
         (\<forall>t \<in> set new. triangle_in_rings ibegin1 iend1 ibegin2 iend2 t)"
proof (induction vs ibegin1 iend1 ibegin2 iend2 u v n1 n2 acc rule: strip_loop.induct)
  case (1 vs ibegin1 iend1 ibegin2 iend2 u v n1 n2 acc)
  let ?u2 = "next_in_ring u ibegin1 iend1"
  let ?v2 = "next_in_ring v ibegin2 iend2"
  let ?tf = "if n1 = 0 then False
             else if n2 = 0 then True
             else (let l1 = squaredNorm3 (sub3 (vs ! nat ?u2) (vs ! nat v));
                       l2 = squaredNorm3 (sub3 (vs ! nat ?v2) (vs ! nat u))
                   in l1 < l2)"
  have u2: "ibegin1 \<le> ?u2 \<and> ?u2 < iend1" using "1.prems" by (simp add: next_in_ring_range)
  have v2: "ibegin2 \<le> ?v2 \<and> ?v2 < iend2" using "1.prems" by (simp add: next_in_ring_range)
  show ?case
  proof (cases "n1 > 0 \<or> n2 > 0")
    case False
    then show ?thesis
      by (simp add: strip_loop.simps [of vs ibegin1 iend1 ibegin2 iend2 u v])
  next
    case go: True
    show ?thesis
    proof (cases ?tf)
      case tf: True
      then have n1: "n1 > 0" by (auto split: if_splits)
      have tf': "n2 \<noteq> 0 \<longrightarrow> squaredNorm3 (sub3 (vs ! nat ?u2) (vs ! nat v)) <
                              squaredNorm3 (sub3 (vs ! nat ?v2) (vs ! nat u))"
        using tf n1 by (auto simp: Let_def split: if_splits)
      obtain new where new:
        "strip_loop vs ibegin1 iend1 ibegin2 iend2 ?u2 v (n1 - 1) n2 (acc @ [(u, ?u2, v)]) =
           (acc @ [(u, ?u2, v)]) @ new"
        "length new = (n1 - 1) + n2"
        "\<forall>t \<in> set new. triangle_in_rings ibegin1 iend1 ibegin2 iend2 t"
        using "1.IH"(1) [OF go refl refl refl tf] u2 "1.prems" by blast
      have here: "triangle_in_rings ibegin1 iend1 ibegin2 iend2 (u, ?u2, v)"
        using u2 "1.prems" by (simp add: triangle_in_rings_def in_rings_def)
      have "strip_loop vs ibegin1 iend1 ibegin2 iend2 u v n1 n2 acc = acc @ ((u, ?u2, v) # new)"
        using n1 tf' new(1) by (simp add: strip_loop.simps [of vs ibegin1 iend1 ibegin2 iend2 u v] Let_def)
      moreover have "length ((u, ?u2, v) # new) = n1 + n2" using new(2) n1 by simp
      moreover have "\<forall>t \<in> set ((u, ?u2, v) # new). triangle_in_rings ibegin1 iend1 ibegin2 iend2 t"
        using here new(3) by simp
      ultimately show ?thesis by blast
    next
      case tf: False
      then have n2: "n2 > 0" using go by (auto split: if_splits)
      have tf': "n1 \<noteq> 0 \<longrightarrow> \<not> squaredNorm3 (sub3 (vs ! nat ?u2) (vs ! nat v)) <
                                squaredNorm3 (sub3 (vs ! nat ?v2) (vs ! nat u))"
        using tf n2 by (auto simp: Let_def split: if_splits)
      obtain new where new:
        "strip_loop vs ibegin1 iend1 ibegin2 iend2 u ?v2 n1 (n2 - 1) (acc @ [(u, ?v2, v)]) =
           (acc @ [(u, ?v2, v)]) @ new"
        "length new = n1 + (n2 - 1)"
        "\<forall>t \<in> set new. triangle_in_rings ibegin1 iend1 ibegin2 iend2 t"
        using "1.IH"(2) [OF go refl refl refl tf] v2 "1.prems" by blast
      have here: "triangle_in_rings ibegin1 iend1 ibegin2 iend2 (u, ?v2, v)"
        using v2 "1.prems" by (simp add: triangle_in_rings_def in_rings_def)
      have "strip_loop vs ibegin1 iend1 ibegin2 iend2 u v n1 n2 acc = acc @ ((u, ?v2, v) # new)"
        using n2 tf' new(1) by (simp add: strip_loop.simps [of vs ibegin1 iend1 ibegin2 iend2 u v] Let_def)
      moreover have "length ((u, ?v2, v) # new) = n1 + n2" using new(2) n2 by simp
      moreover have "\<forall>t \<in> set ((u, ?v2, v) # new). triangle_in_rings ibegin1 iend1 ibegin2 iend2 t"
        using here new(3) by simp
      ultimately show ?thesis by blast
    qed
  qed
qed

text \<open>
  C9. A call of \<open>triangulate_strip\<close> on two rings of at least three vertices each, both inside
  the vertex buffer, succeeds, leaves the vertices and the triangles already present alone,
  appends exactly \<open>n1 + n2\<close> triangles, and every index of every appended triangle lies in one
  of the two rings.
\<close>

theorem triangulate_strip_appends:
  assumes "ibegin1 + 3 \<le> iend1" and "0 \<le> ibegin1" and "iend1 \<le> int (length (vertices its))"
    and "ibegin2 + 3 \<le> iend2" and "0 \<le> ibegin2" and "iend2 \<le> int (length (vertices its))"
  shows "\<exists>new. triangulate_strip its ibegin1 iend1 ibegin2 iend2 =
                 Inr (its\<lparr>indices := indices its @ new\<rparr>) \<and>
               int (length new) = (iend1 - ibegin1) + (iend2 - ibegin2) \<and>
               list_all (triangle_in_rings ibegin1 iend1 ibegin2 iend2) new"
proof -
  let ?s = "closest_on_second (vertices its) (vertices its ! nat ibegin1) ibegin2 iend2 FLT_MAX ibegin2"
  have s: "ibegin2 \<le> ?s \<and> ?s < iend2"
    using assms by (intro closest_on_second_range) simp_all
  obtain new where new:
    "strip_loop (vertices its) ibegin1 iend1 ibegin2 iend2 ibegin1 ?s
       (nat (iend1 - ibegin1)) (nat (iend2 - ibegin2)) (indices its) = indices its @ new"
    "length new = nat (iend1 - ibegin1) + nat (iend2 - ibegin2)"
    "\<forall>t \<in> set new. triangle_in_rings ibegin1 iend1 ibegin2 iend2 t"
    using strip_loop_spec [of ibegin1 ibegin1 iend1 ibegin2 ?s iend2] s assms by force
  have "triangulate_strip its ibegin1 iend1 ibegin2 iend2 = Inr (its\<lparr>indices := indices its @ new\<rparr>)"
    using assms new(1) by (simp add: triangulate_strip_def Let_def)
  moreover have "int (length new) = (iend1 - ibegin1) + (iend2 - ibegin2)"
    using new(2) assms by simp
  moreover have "list_all (triangle_in_rings ibegin1 iend1 ibegin2 iend2) new"
    using new(3) by (simp add: list_all_iff)
  ultimately show ?thesis by blast
qed

theorem triangulate_strip_appends_witness:
  "\<exists>new. (triangulate_strip
            \<lparr>vertices = [(0, 0, 0), (1, 0, 0), (0, 1, 0), (0, 0, 1), (1, 0, 1), (0, 1, 1)],
             indices = [(7, 8, 9)]\<rparr> 0 3 3 6 :: error + indexed_triangle_set) =
          Inr \<lparr>vertices = [(0, 0, 0), (1, 0, 0), (0, 1, 0), (0, 0, 1), (1, 0, 1), (0, 1, 1)],
               indices = [(7, 8, 9)] @ new\<rparr> \<and>
        int (length new) = 6 \<and> list_all (triangle_in_rings 0 3 3 6) new"
  using triangulate_strip_appends
    [of 0 3 "\<lparr>vertices = [(0, 0, 0), (1, 0, 0), (0, 1, 0), (0, 0, 1), (1, 0, 1), (0, 1, 1)],
              indices = [(7, 8, 9)]\<rparr>" 3 6]
  by simp

subsection \<open>Branch extraction\<close>

lemma appends_branches_refl: "appends_branches mb s r 0 out out"
  unfolding appends_branches_def by (rule exI [of _ "[]"]) simp

lemma appends_branches_trans:
  assumes "appends_branches mb s r n a b" and "appends_branches mb s r m b c"
  shows "appends_branches mb s r (n + m) a c"
proof -
  from assms(1) obtain new1 where 1: "b = a\<lparr>branches := branches a @ new1\<rparr>"
    "length (filter (\<lambda>b. hd (path b) = s) new1) = n"
    "\<forall>b \<in> set new1. layer_of mb s \<le> layer_of mb (hd (path b)) \<and> (has_root b \<longleftrightarrow> r \<and> hd (path b) = s)"
    unfolding appends_branches_def by blast
  from assms(2) obtain new2 where 2: "c = b\<lparr>branches := branches b @ new2\<rparr>"
    "length (filter (\<lambda>b. hd (path b) = s) new2) = m"
    "\<forall>b \<in> set new2. layer_of mb s \<le> layer_of mb (hd (path b)) \<and> (has_root b \<longleftrightarrow> r \<and> hd (path b) = s)"
    unfolding appends_branches_def by blast
  have "c = a\<lparr>branches := branches a @ (new1 @ new2)\<rparr>" using 1(1) 2(1) by simp
  moreover have "length (filter (\<lambda>b. hd (path b) = s) (new1 @ new2)) = n + m"
    using 1(2) 2(2) by simp
  moreover have "\<forall>b \<in> set (new1 @ new2). layer_of mb s \<le> layer_of mb (hd (path b)) \<and>
                   (has_root b \<longleftrightarrow> r \<and> hd (path b) = s)"
    using 1(3) 2(3) by auto
  ultimately show ?thesis unfolding appends_branches_def by blast
qed

lemma appends_branches_push:
  "appends_branches mb s r 1 out
     (out\<lparr>branches := branches out @ [\<lparr>path = s # rest, has_root = r, has_tip = t\<rparr>]\<rparr>)"
  unfolding appends_branches_def
  by (rule exI [of _ "[\<lparr>path = s # rest, has_root = r, has_tip = t\<rparr>]"]) simp

lemma appends_branches_nested:
  assumes "appends_branches mb nb False n out1 out2" and "layer_of mb s < layer_of mb nb"
  shows "appends_branches mb s r 0 out1 out2"
proof -
  from assms(1) obtain new where new: "out2 = out1\<lparr>branches := branches out1 @ new\<rparr>"
    "\<forall>b \<in> set new. layer_of mb nb \<le> layer_of mb (hd (path b)) \<and> (has_root b \<longleftrightarrow> False \<and> hd (path b) = nb)"
    unfolding appends_branches_def by blast
  have ne: "\<forall>b \<in> set new. hd (path b) \<noteq> s"
    using new(2) assms(2) by auto
  then have "filter (\<lambda>b. hd (path b) = s) new = []" by (simp add: filter_empty_conv)
  moreover have "\<forall>b \<in> set new. layer_of mb s \<le> layer_of mb (hd (path b)) \<and>
                   (has_root b \<longleftrightarrow> r \<and> hd (path b) = s)"
    using new(2) assms(2) ne by auto
  ultimately show ?thesis using new(1) unfolding appends_branches_def
    by (intro exI [of _ new]) simp
qed

lemma visit_appends_branches:
  "visit_recursive mb marks s out = Inr (marks', out') \<Longrightarrow>
     appends_branches mb s (branches out = []) (length (parents (element_at mb s))) out out'"
  "visit_parents mb marks s r k out = Inr (marks', out') \<Longrightarrow>
     appends_branches mb s r (length (parents (element_at mb s)) - k) out out'"
proof (induction mb marks s out and mb marks s r k out arbitrary: marks' out' and marks' out'
    rule: visit_recursive_visit_parents.induct)
  case (1 mb marks s out)
  from "1.prems" obtain start where d: "deref mb s = Inr start"
    by (subst (asm) visit_recursive.simps) (auto split: sum.splits)
  then have start: "start = element_at mb s" by (simp add: deref_Inr_iff)
  from "1.prems" d have c: "\<not> \<not> (s \<notin> marks \<and> parents start \<noteq> [])"
    by (subst (asm) visit_recursive.simps) (auto split: if_splits)
  from "1.prems" d c have
    v: "visit_parents mb (insert s marks) s (branches out = []) 0 out = Inr (marks', out')"
    by (subst (asm) visit_recursive.simps) (simp add: Let_def)
  show ?case using "1.IH" [OF d c refl v] by simp
next
  case (2 mb marks s r k out)
  from "2.prems" obtain start where d: "deref mb s = Inr start"
    by (subst (asm) visit_parents.simps) (auto split: sum.splits)
  then have start: "start = element_at mb s" by (simp add: deref_Inr_iff)
  show ?case
  proof (cases "k < length (parents start)")
    case False
    with "2.prems" d have "out' = out"
      by (subst (asm) visit_parents.simps) simp
    with False start show ?thesis by (simp add: appends_branches_refl)
  next
    case True
    then have k: "\<not> \<not> k < length (parents start)" by simp
    from "2.prems" d True obtain marks2 bpath nb where
      fb: "follow_branch mb marks s start k = Inr (marks2, bpath, nb)"
      by (subst (asm) visit_parents.simps) (auto split: sum.splits)
    let ?branch = "\<lparr>path = bpath, has_root = r, has_tip = (nb = None)\<rparr>"
    let ?out1 = "out\<lparr>branches := branches out @ [?branch]\<rparr>"
    have hd: "hd bpath = s" using follow_branch_hd [OF fb] .
    have "bpath \<noteq> []" using fb
      by (auto simp: follow_branch_def Let_def split: sum.splits if_splits)
    with hd obtain rest where bp: "bpath = s # rest" by (cases bpath) auto
    have push: "appends_branches mb s r 1 out ?out1"
      unfolding bp by (rule appends_branches_push)
    have cnt: "1 + (length (parents (element_at mb s)) - (k + 1)) =
               length (parents (element_at mb s)) - k"
      using True start by simp
    show ?thesis
    proof (cases nb)
      case None
      from "2.prems" d True fb None have
        v: "visit_parents mb marks2 s r (k + 1) ?out1 = Inr (marks', out')"
        by (subst (asm) visit_parents.simps) (simp add: Let_def)
      have "appends_branches mb s r (length (parents (element_at mb s)) - (k + 1)) ?out1 out'"
        using "2.IH"(1) [OF d k fb refl refl refl refl None] v None by simp
      from appends_branches_trans [OF push this] cnt show ?thesis by simp
    next
      case (Some n)
      from "2.prems" d True fb Some obtain marks3 out2 where
        vr: "visit_recursive mb marks2 n ?out1 = Inr (marks3, out2)"
        by (subst (asm) visit_parents.simps) (auto simp: Let_def split: sum.splits)
      from "2.prems" d True fb Some vr have
        v: "visit_parents mb marks3 s r (k + 1) out2 = Inr (marks', out')"
        by (subst (asm) visit_parents.simps) (simp add: Let_def)
      have lay: "layer_of mb s < layer_of mb n"
        using follow_branch_next_layer [of mb marks s k marks2 bpath n] fb start Some
        by (simp add: layer_of_def)
      have "appends_branches mb n (branches ?out1 = []) (length (parents (element_at mb n))) ?out1 out2"
        using "2.IH"(2) [OF d k fb refl refl refl refl Some] vr Some by simp
      then have "appends_branches mb n False (length (parents (element_at mb n))) ?out1 out2"
        by simp
      from appends_branches_nested [OF this lay]
      have nested: "appends_branches mb s r 0 ?out1 out2" .
      have rest: "appends_branches mb s r (length (parents (element_at mb s)) - (k + 1)) out2 out'"
        using "2.IH"(3) [OF d k fb refl refl refl refl Some] vr v Some by simp
      from appends_branches_trans [OF push appends_branches_trans [OF nested rest]] cnt
      show ?thesis by simp
    qed
  qed
qed


lemma visit_recursive_branches_nonempty:
  assumes "visit_recursive mb marks s out = Inr (marks', out')"
  shows "branches out' \<noteq> []"
proof -
  from assms obtain start where d: "deref mb s = Inr start" and p: "parents start \<noteq> []"
    by (subst (asm) visit_recursive.simps) (auto split: sum.splits if_splits)
  then have "length (parents (element_at mb s)) > 0" by (simp add: deref_Inr_iff)
  with visit_appends_branches(1) [OF assms] show ?thesis
    unfolding appends_branches_def by auto
qed

text \<open>
  C1, as the code has it. \<open>root\<close> is computed once per call of \<open>visit_recursive\<close>, before
  the loop over the parents, so every branch emitted by the call on the start element of a tree
  (one per parent of that element, each starting at it) has \<open>has_root\<close> set, and no branch
  emitted by a recursive call has: a branch of a tree has \<open>has_root\<close> set iff its path starts
  at the start element, and the tree has as many such branches as the start element has parents.
\<close>

theorem has_root_iff_branch_starts_at_root:
  assumes "visit_recursive mb marks s \<lparr>branches = [], first_layer_id = fl\<rparr> = Inr (marks', out)"
  shows "list_all (\<lambda>b. has_root b \<longleftrightarrow> hd (path b) = s) (branches out) \<and>
         length (filter has_root (branches out)) = length (parents (element_at mb s))"
proof -
  from visit_appends_branches(1) [OF assms] obtain new where
    new: "branches out = new"
      "length (filter (\<lambda>b. hd (path b) = s) new) = length (parents (element_at mb s))"
      "\<forall>b \<in> set new. has_root b \<longleftrightarrow> hd (path b) = s"
    unfolding appends_branches_def by auto
  have "filter has_root new = filter (\<lambda>b. hd (path b) = s) new"
    using new(3) by (intro filter_cong) auto
  with new show ?thesis by (simp add: list_all_iff)
qed

theorem has_root_iff_branch_starts_at_root_witness:
  "list_all (\<lambda>b. has_root b \<longleftrightarrow> hd (path b) = (0, 0))
     [\<lparr>path = [(0, 0), (1, 0)], has_root = True, has_tip = False\<rparr>,
      \<lparr>path = [(1, 0), (2, 0), (3, 0)], has_root = False, has_tip = True\<rparr>,
      \<lparr>path = [(1, 0), (2, 1)], has_root = False, has_tip = True\<rparr>] \<and>
   length (filter has_root
     [\<lparr>path = [(0, 0), (1, 0)], has_root = True, has_tip = False\<rparr>,
      \<lparr>path = [(1, 0), (2, 0), (3, 0)], has_root = False, has_tip = True\<rparr>,
      \<lparr>path = [(1, 0), (2, 1)], has_root = False, has_tip = True\<rparr>]) =
   length (parents (element_at fork_move_bounds (0, 0)))"
proof -
  have run: "visit_recursive fork_move_bounds {} (0, 0) \<lparr>branches = [], first_layer_id = - 1\<rparr> =
    Inr ({(2, 1), (3, 0), (2, 0), (1, 0), (0, 0)},
         \<lparr>branches =
            [\<lparr>path = [(0, 0), (1, 0)], has_root = True, has_tip = False\<rparr>,
             \<lparr>path = [(1, 0), (2, 0), (3, 0)], has_root = False, has_tip = True\<rparr>,
             \<lparr>path = [(1, 0), (2, 1)], has_root = False, has_tip = True\<rparr>],
          first_layer_id = - 1\<rparr>)"
    by code_simp
  show ?thesis using has_root_iff_branch_starts_at_root [OF run] by simp
qed

text \<open>
  C1, as stated, fails on scenario S3: the root element has two parents, and the second of the
  two branches of the tree has \<open>has_root\<close> set as the first has.
\<close>

theorem has_root_first_branch_only_counterexample:
  "visit_recursive S3_move_bounds {} (0, 0) \<lparr>branches = [], first_layer_id = - 1\<rparr> =
     Inr ({(1, 1), (1, 0), (0, 0)},
          \<lparr>branches =
             [\<lparr>path = [(0, 0), (1, 0)], has_root = True, has_tip = True\<rparr>,
              \<lparr>path = [(0, 0), (1, 1)], has_root = True, has_tip = True\<rparr>],
           first_layer_id = - 1\<rparr>)"
  by code_simp

text \<open>
  One turn of the caller's loop. For a start element the caller visits (unmarked, with
  parents), whose tree \<open>visit_recursive\<close> builds, the list of trees afterwards is the list
  before with the tree appended if the start element is \<open>lost\<close> or \<open>verylost\<close>, and the list
  before, unchanged, otherwise.
\<close>

lemma visit_start_keeps_lost_or_verylost:
  assumes "start_element \<notin> marks" and "parents (element_at mb start_element) \<noteq> []"
    and "visit_recursive mb marks start_element \<lparr>branches = [], first_layer_id = - 1\<rparr> =
           Inr (marks', tree)"
  shows "visit_start mb (marks, trees) start_element =
           Inr (marks', if lost (state (element_at mb start_element)) \<or>
                           verylost (state (element_at mb start_element))
                        then trees @ [tree] else trees)"
  using assms visit_recursive_branches_nonempty [OF assms(3)]
  by (simp add: visit_start_def Let_def)

lemma visit_start_on_fork_and_S3:
  "visit_start fork_move_bounds ({}, []) (0, 0) =
     Inr ({(2, 1), (3, 0), (2, 0), (1, 0), (0, 0)},
          [\<lparr>branches =
             [\<lparr>path = [(0, 0), (1, 0)], has_root = True, has_tip = False\<rparr>,
              \<lparr>path = [(1, 0), (2, 0), (3, 0)], has_root = False, has_tip = True\<rparr>,
              \<lparr>path = [(1, 0), (2, 1)], has_root = False, has_tip = True\<rparr>],
            first_layer_id = - 1\<rparr>]) \<and>
   visit_start S3_move_bounds ({}, []) (0, 0) = Inr ({(1, 1), (1, 0), (0, 0)}, [])"
proof -
  have run: "visit_recursive fork_move_bounds {} (0, 0) \<lparr>branches = [], first_layer_id = - 1\<rparr> =
    Inr ({(2, 1), (3, 0), (2, 0), (1, 0), (0, 0)},
         \<lparr>branches =
            [\<lparr>path = [(0, 0), (1, 0)], has_root = True, has_tip = False\<rparr>,
             \<lparr>path = [(1, 0), (2, 0), (3, 0)], has_root = False, has_tip = True\<rparr>,
             \<lparr>path = [(1, 0), (2, 1)], has_root = False, has_tip = True\<rparr>],
          first_layer_id = - 1\<rparr>)"
    by code_simp
  have run3: "visit_recursive S3_move_bounds {} (0, 0) \<lparr>branches = [], first_layer_id = - 1\<rparr> =
     Inr ({(1, 1), (1, 0), (0, 0)},
          \<lparr>branches =
             [\<lparr>path = [(0, 0), (1, 0)], has_root = True, has_tip = True\<rparr>,
              \<lparr>path = [(0, 0), (1, 1)], has_root = True, has_tip = True\<rparr>],
           first_layer_id = - 1\<rparr>)"
    by code_simp
  have e: "element_at fork_move_bounds (0, 0) =
      \<lparr>state = \<lparr>layer_idx = 0, lost = True, verylost = False, to_model_gracious = False,
                 result_on_layer = (0, 0)\<rparr>, parents = [0]\<rparr>"
    by (simp add: element_at_def fork_move_bounds_def)
  have e3: "element_at S3_move_bounds (0, 0) =
      \<lparr>state = \<lparr>layer_idx = 0, lost = False, verylost = False, to_model_gracious = False,
                 result_on_layer = (0, 0)\<rparr>, parents = [0, 1]\<rparr>"
    by (simp add: element_at_def S3_move_bounds_def)
  show ?thesis
    using visit_start_keeps_lost_or_verylost [OF _ _ run, of "[]"]
      visit_start_keeps_lost_or_verylost [OF _ _ run3, of "[]"]
    by (simp add: e e3)
qed

text \<open>
  The start elements that the loop of the caller visits (not marked when their turn comes,
  with parents), each with the tree that \<open>visit_recursive\<close> builds from it; \<open>marks\<close> are the
  elements marked so far, \<open>starts\<close> the elements still to come.
\<close>

fun built_trees ::
  "SupportElement list list \<Rightarrow> ElementRef set \<Rightarrow> ElementRef list \<Rightarrow> error + (ElementRef \<times> Tree) list" where
  "built_trees move_bounds marks [] = Inr []"
| "built_trees move_bounds marks (start_element # rest) =
     (if start_element \<notin> marks \<and> parents (element_at move_bounds start_element) \<noteq> [] then
        (case visit_recursive move_bounds marks start_element
                \<lparr>branches = [], first_layer_id = - 1\<rparr> of
           Inl e \<Rightarrow> Inl e
         | Inr (marks', tree) \<Rightarrow>
             (case built_trees move_bounds marks' rest of
                Inl e \<Rightarrow> Inl e
              | Inr built \<Rightarrow> Inr ((start_element, tree) # built)))
      else built_trees move_bounds marks rest)"

text \<open>Of these, the trees of the start elements that are lost or verylost.\<close>

definition trees_of_lost :: "SupportElement list list \<Rightarrow> (ElementRef \<times> Tree) list \<Rightarrow> Tree list" where
  "trees_of_lost move_bounds built =
     map snd (filter (\<lambda>(start_element, tree).
                        lost (state (element_at move_bounds start_element)) \<or>
                        verylost (state (element_at move_bounds start_element))) built)"

lemma visit_starts_trees:
  "(case visit_starts mb (marks, trees) starts of Inl e \<Rightarrow> Inl e | Inr (marks', trees') \<Rightarrow> Inr trees') =
   (case built_trees mb marks starts of Inl e \<Rightarrow> Inl e
    | Inr built \<Rightarrow> Inr (trees @ trees_of_lost mb built))"
proof (induction starts arbitrary: marks trees)
  case Nil
  show ?case by (simp add: trees_of_lost_def)
next
  case (Cons s starts)
  show ?case
  proof (cases "s \<notin> marks \<and> parents (element_at mb s) \<noteq> []")
    case False
    then have "visit_start mb (marks, trees) s = Inr (marks, trees)"
      by (auto simp: visit_start_def Let_def)
    with False Cons.IH [of marks trees] show ?thesis by auto
  next
    case True
    show ?thesis
    proof (cases "visit_recursive mb marks s \<lparr>branches = [], first_layer_id = - 1\<rparr>")
      case (Inl e)
      with True have "visit_start mb (marks, trees) s = Inl e"
        by (simp add: visit_start_def Let_def)
      with True Inl show ?thesis by simp
    next
      case (Inr r)
      obtain marks' tree where r: "r = (marks', tree)" by (cases r)
      let ?keep = "lost (state (element_at mb s)) \<or> verylost (state (element_at mb s))"
      from True Inr r visit_recursive_branches_nonempty [OF Inr [unfolded r]]
      have vs: "visit_start mb (marks, trees) s =
                  Inr (marks', if ?keep then trees @ [tree] else trees)"
        by (simp add: visit_start_def Let_def)
      show ?thesis
        using True Inr r vs Cons.IH [of marks' "if ?keep then trees @ [tree] else trees"]
        by (auto simp: trees_of_lost_def split: sum.splits)
    qed
  qed
qed

text \<open>
  C2. The list of trees that the extraction returns holds, in the order of the visits, the
  trees built from the visited start elements that are lost or verylost, and no other: the
  tree of a visited start element that is neither is not in the list.
\<close>

theorem extract_trees_keeps_lost_or_verylost:
  "extract_trees move_bounds =
     (case built_trees move_bounds {} (start_elements move_bounds) of
        Inl e \<Rightarrow> Inl e
      | Inr built \<Rightarrow> Inr (trees_of_lost move_bounds built))"
  using visit_starts_trees [of move_bounds "{}" "[]" "start_elements move_bounds"]
  by (auto simp: extract_trees_def split: sum.splits)

lemma two_roots_built:
  "built_trees two_roots_move_bounds {} (start_elements two_roots_move_bounds) =
     Inr [((0, 0), \<lparr>branches = [\<lparr>path = [(0, 0), (1, 0)], has_root = True, has_tip = True\<rparr>],
                    first_layer_id = - 1\<rparr>),
          ((0, 1), \<lparr>branches = [\<lparr>path = [(0, 1), (1, 1)], has_root = True, has_tip = True\<rparr>],
                    first_layer_id = - 1\<rparr>)]"
  by code_simp

theorem extract_trees_keeps_lost_or_verylost_witness:
  "extract_trees two_roots_move_bounds =
     Inr [\<lparr>branches = [\<lparr>path = [(0, 1), (1, 1)], has_root = True, has_tip = True\<rparr>],
           first_layer_id = - 1\<rparr>]"
  unfolding extract_trees_keeps_lost_or_verylost [of two_roots_move_bounds] two_roots_built
  by (simp add: trees_of_lost_def element_at_def two_roots_move_bounds_def)

subsection \<open>The sphere solver\<close>

lemma squaredNorm2_nonneg: "0 \<le> squaredNorm2 a"
  by (simp add: squaredNorm2_def)

lemma squaredNorm2_pos_iff: "0 < squaredNorm2 a \<longleftrightarrow> a \<noteq> (0, 0)"
proof (cases a)
  case (Pair x y)
  have "x * x + y * y = 0 \<longleftrightarrow> x = 0 \<and> y = 0"
    by (metis add_nonneg_eq_0_iff mult_eq_0_iff zero_le_square)
  moreover have "0 \<le> x * x + y * y" by simp
  ultimately show ?thesis using Pair by (auto simp: squaredNorm2_def less_le)
qed

lemma norm2_scale2: "norm2 (scale2 c a) = \<bar>c\<bar> * norm2 a"
proof -
  have "squaredNorm2 (scale2 c a) = c\<^sup>2 * squaredNorm2 a"
    by (simp add: squaredNorm2_def scale2_def power2_eq_square algebra_simps)
  then show ?thesis by (simp add: norm2_def real_sqrt_mult)
qed

lemma norm2_normalized2:
  assumes "a \<noteq> (0, 0)"
  shows "norm2 (normalized2 a) = 1"
proof -
  have pos: "0 < squaredNorm2 a" using assms by (simp add: squaredNorm2_pos_iff)
  then have sq: "0 < sqrt (squaredNorm2 a)" by simp
  have "normalized2 a = scale2 (1 / sqrt (squaredNorm2 a)) a"
    using pos by (simp add: normalized2_def Let_def)
  then have "norm2 (normalized2 a) = \<bar>1 / sqrt (squaredNorm2 a)\<bar> * norm2 a"
    by (simp only: norm2_scale2)
  also have "\<dots> = (1 / sqrt (squaredNorm2 a)) * sqrt (squaredNorm2 a)"
    using sq by (simp add: norm2_def)
  also have "\<dots> = 1" using sq by simp
  finally show ?thesis .
qed

lemma normalized2_zero: "normalized2 (0, 0) = (0, 0)"
  by (simp add: normalized2_def squaredNorm2_def)

lemma to_2d_add_to_head2: "to_2d (add_to_head2 p v) = add2 (to_2d p) v"
  by (cases p) (simp add: add_to_head2_def to_2d_def to_3d_def add2_def z_of_def)

lemma z_of_add_to_head2: "z_of (add_to_head2 p v) = z_of p"
  by (cases p) (simp add: add_to_head2_def to_2d_def to_3d_def add2_def z_of_def)

lemma add_to_head2_zero: "add_to_head2 p (0, 0) = p"
  by (cases p) (simp add: add_to_head2_def to_2d_def to_3d_def add2_def z_of_def)

lemma sub2_add2_cancel: "sub2 (add2 a v) a = v"
  by (simp add: sub2_def add2_def)

lemma scale2_scale2: "scale2 c (scale2 d a) = scale2 (c * d) a"
  by (simp add: scale2_def)

lemma scale2_zero: "scale2 c (0, 0) = (0, 0)"
  by (simp add: scale2_def)

lemma avoid_collision_cases:
  assumes "avoid_collision env cache s = Inr (s', moved)"
  shows "\<exists>depth collision.
           collide_layers env cache s (layer_begin s) (- DBL_MAX) (last_collision s) =
             Inr (depth, collision) \<and>
           last_collision_depth s' = depth \<and> last_collision s' = collision \<and>
           (if depth > 0
            then s' = nudge_away (s\<lparr>last_collision_depth := depth, last_collision := collision\<rparr>) \<and>
                 moved = (depth > EPSILON env)
            else s' = s\<lparr>last_collision_depth := depth, last_collision := collision\<rparr> \<and> \<not> moved)"
  using assms
  by (auto simp: avoid_collision_def Let_def nudge_away_def split: sum.splits if_splits)

text \<open>
  C3, as the code has it. In a pass, for a sphere that is not locked and whose computed
  \<open>last_collision_depth\<close> is positive, the XY position is moved by
  \<open>nudge * nudge\<close> times Eigen's \<open>normalized()\<close> of the XY vector \<open>d\<close> from \<open>last_collision\<close>
  to the position, with \<open>nudge = min (max 0 (last_collision_depth + 0.1)) 0.5\<close>; Z is kept.
  Where \<open>d\<close> is not zero that direction is a unit vector and the length of the displacement
  is \<open>nudge * nudge\<close>; where \<open>d\<close> is zero (the centre of the sphere lies on the collision line)
  \<open>normalized()\<close> returns the zero vector and the position is not moved.
\<close>

theorem collision_nudge_is_squared:
  assumes "avoid_collision env layer_collision_cache collision_sphere = Inr (nudged, moved)"
    and "last_collision_depth nudged > 0"
  defines "nudge \<equiv> min (max 0 (last_collision_depth nudged + 0.1)) 0.5"
    and "d \<equiv> sub2 (to_2d (position collision_sphere)) (to_2d (last_collision nudged))"
  shows "to_2d (position nudged) =
           add2 (to_2d (position collision_sphere)) (scale2 (nudge * nudge) (normalized2 d)) \<and>
         z_of (position nudged) = z_of (position collision_sphere) \<and>
         (d \<noteq> (0, 0) \<longrightarrow>
            norm2 (normalized2 d) = 1 \<and>
            norm2 (sub2 (to_2d (position nudged)) (to_2d (position collision_sphere))) =
              nudge * nudge) \<and>
         (d = (0, 0) \<longrightarrow> position nudged = position collision_sphere)"
proof -
  from avoid_collision_cases [OF assms(1)] obtain depth collision where
    dc0: "last_collision_depth nudged = depth" "last_collision nudged = collision"
      "if depth > 0
       then nudged = nudge_away (collision_sphere\<lparr>last_collision_depth := depth,
                                                   last_collision := collision\<rparr>) \<and>
            moved = (depth > EPSILON env)
       else nudged = collision_sphere\<lparr>last_collision_depth := depth,
                                       last_collision := collision\<rparr> \<and> \<not> moved"
    by blast
  have dc: "last_collision_depth nudged = depth" "last_collision nudged = collision" "depth > 0"
      "nudged = nudge_away (collision_sphere\<lparr>last_collision_depth := depth,
                                             last_collision := collision\<rparr>)"
    using dc0 assms(2) by simp_all
  have n0: "0 \<le> nudge" by (simp add: nudge_def)
  have pos: "position nudged =
      add_to_head2 (position collision_sphere) (scale2 (nudge * nudge) (normalized2 d))"
    by (subst dc(4))
      (simp add: nudge_away_def Let_def nudge_def d_def dc(1,2) collision_extra_gap_def
        max_nudge_collision_avoidance_def scale2_scale2)
  have 1: "to_2d (position nudged) =
      add2 (to_2d (position collision_sphere)) (scale2 (nudge * nudge) (normalized2 d))"
    by (simp add: pos to_2d_add_to_head2)
  have 2: "z_of (position nudged) = z_of (position collision_sphere)"
    by (simp add: pos z_of_add_to_head2)
  have 3: "norm2 (normalized2 d) = 1 \<and>
           norm2 (sub2 (to_2d (position nudged)) (to_2d (position collision_sphere))) = nudge * nudge"
    if "d \<noteq> (0, 0)"
    using that n0 by (simp add: 1 sub2_add2_cancel norm2_scale2 norm2_normalized2)
  have 4: "position nudged = position collision_sphere" if "d = (0, 0)"
    using that by (simp add: pos normalized2_zero scale2_zero add_to_head2_zero)
  from 1 2 3 4 show ?thesis by blast
qed


text \<open>
  The average of the Laplacian smoothing as the specification states it: each parent's
  previous XY weighted with the radius of the sphere, the previous XY of the sphere below
  weighted with the sum of the parents' weights, the sum divided by the total weight.
\<close>

fun sum2 :: "Vec2d list \<Rightarrow> Vec2d" where
  "sum2 [] = (0, 0)"
| "sum2 (v # vs) = add2 v (sum2 vs)"

definition parents_prev_xy :: "int list \<Rightarrow> CollisionSphere list \<Rightarrow> CollisionSphere \<Rightarrow> Vec2d list" where
  "parents_prev_xy linear_data_layers collision_spheres s =
     map (\<lambda>iparent. to_2d (prev_position
            (collision_spheres !
               nat (linear_data_layers ! nat (layer_idx (state (element s)) + 1) + iparent))))
         (parents (element s))"

definition below_prev_xy :: "int list \<Rightarrow> CollisionSphere list \<Rightarrow> CollisionSphere \<Rightarrow> Vec2d" where
  "below_prev_xy linear_data_layers collision_spheres s =
     to_2d (prev_position
       (collision_spheres !
          nat (linear_data_layers ! nat (layer_idx (state (element s)) - 1) + element_below_id s)))"

definition average_of_neighbours :: "int list \<Rightarrow> CollisionSphere list \<Rightarrow> CollisionSphere \<Rightarrow> Vec2d" where
  "average_of_neighbours linear_data_layers collision_spheres s =
     (let from_above = sum2 (map (scale2 (radius s))
                               (parents_prev_xy linear_data_layers collision_spheres s));
          weight_above = real (length (parents (element s))) * radius s
      in if element_below_id s \<noteq> - 1
         then scale2 (1 / (weight_above + weight_above))
                (add2 from_above
                   (scale2 weight_above (below_prev_xy linear_data_layers collision_spheres s)))
         else scale2 (1 / weight_above) from_above)"

lemma add2_assoc: "add2 (add2 a b) c = add2 a (add2 b c)"
  by (simp add: add2_def)

lemma add2_zero_right: "add2 a (0, 0) = a"
  by (simp add: add2_def)

lemma add2_zero_left: "add2 (0, 0) a = a"
  by (simp add: add2_def)

lemma add_parents_sum:
  "add_parents collision_spheres offset_above w acc ps = Inr (avg, weight) \<Longrightarrow>
   avg = add2 (fst acc)
           (sum2 (map (scale2 w)
              (map (\<lambda>iparent. to_2d (prev_position (collision_spheres ! nat (offset_above + iparent))))
                 ps))) \<and>
   weight = snd acc + real (length ps) * w"
proof (induction ps arbitrary: acc)
  case Nil
  then show ?case by (simp add: add2_zero_right)
next
  case (Cons iparent ps)
  from Cons.prems obtain parent where
    p: "at_index collision_spheres (offset_above + iparent) = Inr parent"
    by (auto split: sum.splits)
  then have pe: "parent = collision_spheres ! nat (offset_above + iparent)"
    by (auto simp: at_index_def split: if_splits)
  from Cons.prems p have
    "add_parents collision_spheres offset_above w
       (add2 (fst acc) (scale2 w (to_2d (prev_position parent))), snd acc + w) ps = Inr (avg, weight)"
    by simp
  from Cons.IH [OF this] show ?case
    by (simp add: pe add2_assoc algebra_simps)
qed

lemma weighted_neighbours_closed_form:
  assumes "weighted_neighbours lin spheres s = Inr (avg_sum, weight)"
  shows "weight = (if element_below_id s \<noteq> - 1 then 2 else 1) *
                  (real (length (parents (element s))) * radius s) \<and>
         (weight \<noteq> 0 \<longrightarrow> scale2 (1 / weight) avg_sum = average_of_neighbours lin spheres s)"
proof -
  from assms obtain offset_above where
    oa: "at_index lin (layer_idx (state (element s)) + 1) = Inr offset_above"
    by (auto simp: weighted_neighbours_def split: sum.splits)
  then have oae: "offset_above = lin ! nat (layer_idx (state (element s)) + 1)"
    by (auto simp: at_index_def split: if_splits)
  from assms oa obtain a w where
    ap: "add_parents spheres offset_above (radius s) ((0, 0), 0) (parents (element s)) = Inr (a, w)"
    by (auto simp: weighted_neighbours_def split: sum.splits)
  from add_parents_sum [OF ap] have
    a: "a = sum2 (map (scale2 (radius s)) (parents_prev_xy lin spheres s))"
    and w: "w = real (length (parents (element s))) * radius s"
    by (simp_all add: add2_zero_left parents_prev_xy_def oae)
  show ?thesis
  proof (cases "element_below_id s \<noteq> - 1")
    case False
    with assms oa ap have e: "avg_sum = a" "weight = w"
      by (simp_all add: weighted_neighbours_def)
    have "average_of_neighbours lin spheres s = scale2 (1 / w) a"
      unfolding average_of_neighbours_def Let_def a w if_not_P [OF False]
      by (rule refl)
    then have "scale2 (1 / weight) avg_sum = average_of_neighbours lin spheres s"
      by (simp only: e)
    moreover have "weight = (if element_below_id s \<noteq> - 1 then 2 else 1) *
                  (real (length (parents (element s))) * radius s)"
      using False e(2) w by simp
    ultimately show ?thesis by blast
  next
    case True
    from assms oa ap True obtain offset_below where
      ob: "at_index lin (layer_idx (state (element s)) - 1) = Inr offset_below"
      by (auto simp: weighted_neighbours_def split: sum.splits)
    then have obe: "offset_below = lin ! nat (layer_idx (state (element s)) - 1)"
      by (auto simp: at_index_def split: if_splits)
    from assms oa ap True ob obtain below where
      b: "at_index spheres (offset_below + element_below_id s) = Inr below"
      by (auto simp: weighted_neighbours_def split: sum.splits)
    then have be: "below = spheres ! nat (offset_below + element_below_id s)"
      by (auto simp: at_index_def split: if_splits)
    from assms oa ap True ob b have
      e: "avg_sum = add2 a (scale2 w (to_2d (prev_position below)))" "weight = w + w"
      by (simp_all add: weighted_neighbours_def Let_def)
    have "average_of_neighbours lin spheres s =
            scale2 (1 / (w + w)) (add2 a (scale2 w (to_2d (prev_position below))))"
      unfolding average_of_neighbours_def Let_def a w below_prev_xy_def be obe if_P [OF True]
      by (rule refl)
    then have "scale2 (1 / weight) avg_sum = average_of_neighbours lin spheres s"
      by (simp only: e)
    moreover have "weight = (if element_below_id s \<noteq> - 1 then 2 else 1) *
                  (real (length (parents (element s))) * radius s)"
      using True e(2) w by simp
    ultimately show ?thesis by blast
  qed
qed


lemma norm2_nonneg: "0 \<le> norm2 a"
  by (simp add: norm2_def squaredNorm2_nonneg)


definition structural :: "error \<Rightarrow> bool" where
  "structural e \<longleftrightarrow> e = AssertionFailed \<or> e = IndexOutOfRange"

lemma at_index_structural: "at_index xs i = Inl e \<Longrightarrow> structural e"
  by (auto simp: at_index_def structural_def split: if_splits)

lemma deref_structural: "deref mb r = Inl e \<Longrightarrow> structural e"
  by (auto simp: deref_def split: sum.splits dest: at_index_structural)

lemma collect_min_radius_structural:
  "collect_min_radius env mb cache elems = Inl e \<Longrightarrow> structural e"
proof (induction elems arbitrary: cache)
  case Nil
  then show ?case by simp
next
  case (Cons a elems)
  from Cons.prems show ?case
    by (auto simp: Let_def split: sum.splits dest: deref_structural at_index_structural Cons.IH)
qed

lemma create_spheres_structural:
  "create_spheres env mb lin acc elems = Inl e \<Longrightarrow> structural e"
proof (induction elems arbitrary: acc)
  case Nil
  then show ?case by simp
next
  case (Cons a elems)
  from Cons.prems show ?case
    by (auto simp: Let_def split: sum.splits if_splits
        dest: deref_structural at_index_structural Cons.IH)
qed

lemma min_parent_max_z_structural:
  "min_parent_max_z ss i off ps = Inl e \<Longrightarrow> structural e"
proof (induction ps arbitrary: ss)
  case Nil
  then show ?case by simp
next
  case (Cons a ps)
  from Cons.prems show ?case
    by (auto simp: Let_def split: sum.splits dest: at_index_structural Cons.IH)
qed

lemma propagate_max_z_structural:
  "propagate_max_z lin ss k = Inl e \<Longrightarrow> structural e"
proof (induction k arbitrary: ss)
  case 0
  then show ?case by simp
next
  case (Suc k)
  from Suc.prems show ?case
    by (auto simp: Let_def split: sum.splits if_splits
        dest: at_index_structural min_parent_max_z_structural Suc.IH)
qed

lemma limit_span_structural: "limit_span env n s = Inl e \<Longrightarrow> structural e"
  by (auto simp: limit_span_def Let_def structural_def split: if_splits)

lemma limit_spans_structural: "limit_spans env n ss = Inl e \<Longrightarrow> structural e"
proof (induction ss)
  case Nil
  then show ?case by simp
next
  case (Cons a ss)
  from Cons.prems show ?case
    by (auto split: sum.splits dest: limit_span_structural Cons.IH)
qed

lemma collide_layers_structural:
  "collide_layers env cache s layer_id depth collision = Inl e \<Longrightarrow> structural e"
proof (induction env cache s layer_id depth collision rule: collide_layers.induct)
  case (1 env cache s layer_id depth collision)
  from "1.prems" show ?case
    apply (subst (asm) collide_layers.simps)
    apply (auto simp: Let_def split: if_splits sum.splits dest: at_index_structural)
    using "1.IH" apply (auto simp: Let_def)
    done
qed

lemma avoid_collision_structural: "avoid_collision env cache s = Inl e \<Longrightarrow> structural e"
  by (auto simp: avoid_collision_def Let_def split: sum.splits if_splits
      dest: collide_layers_structural)

lemma add_parents_structural:
  "add_parents ss off w acc ps = Inl e \<Longrightarrow> structural e"
proof (induction ps arbitrary: acc)
  case Nil
  then show ?case by simp
next
  case (Cons a ps)
  from Cons.prems show ?case
    by (auto split: sum.splits dest: at_index_structural Cons.IH)
qed

lemma weighted_neighbours_structural:
  "weighted_neighbours lin ss s = Inl e \<Longrightarrow> structural e"
  by (auto simp: weighted_neighbours_def Let_def split: sum.splits if_splits
      dest: at_index_structural add_parents_structural)


definition same_fixed :: "CollisionSphere \<Rightarrow> CollisionSphere \<Rightarrow> bool" where
  "same_fixed s t \<longleftrightarrow>
     element t = element s \<and> element_below_id t = element_below_id s \<and>
     locked t = locked s \<and> radius t = radius s"

definition setup_same :: "CollisionSphere \<Rightarrow> CollisionSphere \<Rightarrow> bool" where
  "setup_same s t \<longleftrightarrow>
     same_fixed s t \<and> position t = position s \<and>
     last_collision_depth t = last_collision_depth s"

definition pass_same :: "CollisionSphere \<Rightarrow> CollisionSphere \<Rightarrow> bool" where
  "pass_same s t \<longleftrightarrow>
     same_fixed s t \<and>
     (locked s \<longrightarrow> position t = position s \<and> last_collision_depth t = last_collision_depth s)"

lemma setup_same_refl: "setup_same s s"
  by (simp add: setup_same_def same_fixed_def)

lemma setup_same_trans: "setup_same a b \<Longrightarrow> setup_same b c \<Longrightarrow> setup_same a c"
  by (simp add: setup_same_def same_fixed_def)

lemma pass_same_refl: "pass_same s s"
  by (simp add: pass_same_def same_fixed_def)

lemma pass_same_trans: "pass_same a b \<Longrightarrow> pass_same b c \<Longrightarrow> pass_same a c"
  by (simp add: pass_same_def same_fixed_def)

lemma setup_same_pass_same: "setup_same a b \<Longrightarrow> pass_same a b"
  by (simp add: setup_same_def pass_same_def)

lemma list_all2_setup_same_refl: "list_all2 setup_same ss ss"
  by (simp add: list_all2_refl setup_same_refl)

lemma list_all2_setup_same_trans:
  "list_all2 setup_same as bs \<Longrightarrow> list_all2 setup_same bs cs \<Longrightarrow> list_all2 setup_same as cs"
  by (rule list_all2_trans [of setup_same setup_same setup_same]) (auto intro: setup_same_trans)

lemma list_all2_pass_same_trans:
  "list_all2 pass_same as bs \<Longrightarrow> list_all2 pass_same bs cs \<Longrightarrow> list_all2 pass_same as cs"
  by (rule list_all2_trans [of pass_same pass_same pass_same]) (auto intro: pass_same_trans)

lemma list_all2_setup_same_update:
  assumes "i < length ss \<Longrightarrow> setup_same (ss ! i) y"
  shows "list_all2 setup_same ss (ss[i := y])"
proof (cases "i < length ss")
  case True
  then show ?thesis
    using assms by (auto simp: list_all2_conv_all_nth nth_list_update setup_same_refl)
next
  case False
  then have "length ss \<le> i" by (simp add: not_less)
  then have "ss[i := y] = ss" by (rule list_update_beyond)
  then show ?thesis by (simp only: list_all2_setup_same_refl)
qed

lemma create_spheres_spec:
  "create_spheres env mb lin acc elems = Inr res \<Longrightarrow>
   \<exists>new. res = acc @ new \<and>
         list_all2 (\<lambda>el s. setup_same (new_collision_sphere env (element_at mb (fst el)) (snd el)) s)
           elems new"
proof (induction elems arbitrary: acc)
  case Nil
  then show ?case by simp
next
  case (Cons el elems)
  from Cons.prems obtain elem where d: "deref mb (fst el) = Inr elem"
    by (auto split: sum.splits)
  then have elem: "elem = element_at mb (fst el)" by (simp add: deref_Inr_iff)
  let ?s = "new_collision_sphere env elem (snd el)"
  from Cons.prems d obtain mz where
    rec: "create_spheres env mb lin (acc @ [?s\<lparr>min_z := mz\<rparr>]) elems = Inr res"
    by (auto simp: Let_def split: sum.splits if_splits)
  from Cons.IH [OF rec] obtain new where
    new: "res = (acc @ [?s\<lparr>min_z := mz\<rparr>]) @ new"
      "list_all2 (\<lambda>el s. setup_same (new_collision_sphere env (element_at mb (fst el)) (snd el)) s)
         elems new"
    by blast
  have "setup_same ?s (?s\<lparr>min_z := mz\<rparr>)" by (simp add: setup_same_def same_fixed_def)
  with new elem show ?case
    by (intro exI [of _ "?s\<lparr>min_z := mz\<rparr> # new"]) simp
qed

lemma min_parent_max_z_same:
  "min_parent_max_z ss i off ps = Inr res \<Longrightarrow> list_all2 setup_same ss res"
proof (induction ps arbitrary: ss)
  case Nil
  then show ?case by (simp add: list_all2_setup_same_refl)
next
  case (Cons a ps)
  from Cons.prems obtain parent where p: "at_index ss (off + a) = Inr parent"
    by (auto split: sum.splits)
  let ?ss1 = "ss[i := (ss ! i)\<lparr>max_z := min (max_z (ss ! i)) (max_z parent)\<rparr>]"
  from Cons.prems p have rec: "min_parent_max_z ?ss1 i off ps = Inr res"
    by (simp add: Let_def)
  have "list_all2 setup_same ss ?ss1"
    by (rule list_all2_setup_same_update) (simp add: setup_same_def same_fixed_def)
  from list_all2_setup_same_trans [OF this Cons.IH [OF rec]] show ?case .
qed

lemma propagate_max_z_same:
  "propagate_max_z lin ss k = Inr res \<Longrightarrow> list_all2 setup_same ss res"
proof (induction k arbitrary: ss)
  case 0
  then show ?case by (simp add: list_all2_setup_same_refl)
next
  case (Suc k)
  show ?case
  proof (cases "parents (element (ss ! k)) = []")
    case True
    let ?ss1 = "ss[k := (ss ! k)\<lparr>max_z := z_of (position (ss ! k))\<rparr>]"
    from Suc.prems True have rec: "propagate_max_z lin ?ss1 k = Inr res"
      by (simp add: Let_def)
    have "list_all2 setup_same ss ?ss1"
      by (rule list_all2_setup_same_update) (simp add: setup_same_def same_fixed_def)
    from list_all2_setup_same_trans [OF this Suc.IH [OF rec]] show ?thesis .
  next
    case False
    from Suc.prems False obtain off ss1 where
      m: "min_parent_max_z ss k off (parents (element (ss ! k))) = Inr ss1"
      and rec: "propagate_max_z lin ss1 k = Inr res"
      by (auto simp: Let_def split: sum.splits)
    from list_all2_setup_same_trans [OF min_parent_max_z_same [OF m] Suc.IH [OF rec]]
    show ?thesis .
  qed
qed

lemma limit_span_same: "limit_span env n s = Inr t \<Longrightarrow> setup_same s t"
  by (auto simp: limit_span_def Let_def setup_same_def same_fixed_def split: if_splits)

lemma limit_spans_same: "limit_spans env n ss = Inr res \<Longrightarrow> list_all2 setup_same ss res"
proof (induction ss arbitrary: res)
  case Nil
  then show ?case by simp
next
  case (Cons a ss)
  from Cons.prems obtain a1 rest1 where
    a: "limit_span env n a = Inr a1" and r: "limit_spans env n ss = Inr rest1"
    and res: "res = a1 # rest1"
    by (auto split: sum.splits)
  from limit_span_same [OF a] Cons.IH [OF r] res show ?case by simp
qed

lemma nudge_away_same:
  "same_fixed s (nudge_away s) \<and> last_collision_depth (nudge_away s) = last_collision_depth s"
  by (simp add: nudge_away_def Let_def same_fixed_def)

lemma avoid_collision_same:
  assumes "avoid_collision env cache s = Inr (s', moved)"
  shows "same_fixed s s' \<and>
         moved = (last_collision_depth s' > 0 \<and> last_collision_depth s' > EPSILON env)"
proof -
  from avoid_collision_cases [OF assms] obtain depth collision where
    dc: "last_collision_depth s' = depth"
      "if depth > 0
       then s' = nudge_away (s\<lparr>last_collision_depth := depth, last_collision := collision\<rparr>) \<and>
            moved = (depth > EPSILON env)
       else s' = s\<lparr>last_collision_depth := depth, last_collision := collision\<rparr> \<and> \<not> moved"
    by blast
  show ?thesis
  proof (cases "depth > 0")
    case True
    with dc have "s' = nudge_away (s\<lparr>last_collision_depth := depth, last_collision := collision\<rparr>)"
      and "moved = (depth > EPSILON env)" by simp_all
    then show ?thesis using True dc(1)
      by (simp add: nudge_away_def Let_def same_fixed_def)
  next
    case False
    with dc have "s' = s\<lparr>last_collision_depth := depth, last_collision := collision\<rparr>"
      and "\<not> moved" by simp_all
    then show ?thesis using False by (simp add: same_fixed_def)
  qed
qed

lemma laplacian_smoothing_same:
  assumes "laplacian_smoothing lin ss s = Inr s'"
  shows "same_fixed s s' \<and> last_collision_depth s' = last_collision_depth s"
  using assms
  by (auto simp: laplacian_smoothing_def Let_def same_fixed_def split: sum.splits if_splits)

lemma update_sphere_same:
  assumes "update_sphere env cache lin ss s = Inr (s', moved)"
  shows "same_fixed s s' \<and>
         moved = (last_collision_depth s' > 0 \<and> last_collision_depth s' > EPSILON env)"
proof -
  from assms obtain s2 where
    a: "avoid_collision env cache s = Inr (s2, moved)" and
    l: "laplacian_smoothing lin ss s2 = Inr s'"
    by (auto simp: update_sphere_def split: sum.splits)
  from avoid_collision_same [OF a] laplacian_smoothing_same [OF l] show ?thesis
    by (simp add: same_fixed_def)
qed

definition moved_sphere :: "solver_env \<Rightarrow> CollisionSphere \<Rightarrow> bool" where
  "moved_sphere env s \<longleftrightarrow>
     \<not> locked s \<and> last_collision_depth s > 0 \<and> last_collision_depth s > EPSILON env"

lemma poll_cases:
  "poll tc n = Inr n' \<Longrightarrow> n' = Suc n"
  "poll tc n = Inl e \<Longrightarrow> tc n = Some x \<Longrightarrow> e = Cancelled x"
  by (auto simp: poll_def split: option.splits)

lemma poll_Inl: "poll tc n = Inl e \<Longrightarrow> \<exists>x. e = Cancelled x \<and> tc n = Some x"
  by (auto simp: poll_def split: option.splits)

lemma update_spheres_spec:
  "update_spheres env tc cache lin all todo n = Inr (res, num_moved, n') \<Longrightarrow>
   list_all2 pass_same todo res \<and> num_moved = length (filter (moved_sphere env) res) \<and> n \<le> n'"
proof (induction todo arbitrary: n res num_moved n')
  case Nil
  then show ?case by simp
next
  case (Cons s todo)
  show ?case
  proof (cases "locked s")
    case True
    from Cons.prems True obtain rest m where
      rec: "update_spheres env tc cache lin all todo n = Inr (rest, m, n')"
      and res: "res = s # rest" "num_moved = m"
      by (auto split: sum.splits)
    from Cons.IH [OF rec] res True show ?thesis
      by (simp add: pass_same_refl moved_sphere_def)
  next
    case False
    from Cons.prems False obtain s1 moved n1 rest m where
      u: "update_sphere env cache lin all s = Inr (s1, moved)"
      and p: "poll tc n = Inr n1"
      and rec: "update_spheres env tc cache lin all todo n1 = Inr (rest, m, n')"
      and res: "res = s1 # rest" "num_moved = (if moved then 1 else 0) + m"
      by (auto split: sum.splits)
    from update_sphere_same [OF u] have
      sf: "same_fixed s s1" and
      mv: "moved = (last_collision_depth s1 > 0 \<and> last_collision_depth s1 > EPSILON env)"
      by simp_all
    have ps: "pass_same s s1" using sf False by (simp add: pass_same_def)
    have ms: "moved_sphere env s1 = moved"
      using sf False mv by (simp add: moved_sphere_def same_fixed_def)
    from Cons.IH [OF rec] res ps ms poll_cases(1) [OF p] show ?thesis by simp
  qed
qed

lemma solver_pass_spec:
  assumes "solver_pass env tc cache lin ss n = Inr (res, num_moved, n')"
  shows "list_all2 pass_same ss res \<and> num_moved = length (filter (moved_sphere env) res) \<and> n \<le> n'"
proof -
  let ?b = "map (\<lambda>s. s\<lparr>prev_position := position s\<rparr>) ss"
  from assms have u: "update_spheres env tc cache lin ?b ?b n = Inr (res, num_moved, n')"
    by (simp add: solver_pass_def Let_def)
  have "list_all2 pass_same ss ?b"
    by (simp add: list_all2_conv_all_nth pass_same_def same_fixed_def)
  from list_all2_pass_same_trans [OF this] update_spheres_spec [OF u] show ?thesis by blast
qed

text \<open>
  \<open>quiet tc n n'\<close>: the calls of \<open>throw_on_cancel\<close> numbered \<open>n\<close>, ..., \<open>n' - 1\<close> all returned.
  \<open>failure tc n e\<close>: \<open>e\<close> is a violated assertion, an index out of range, a division by zero, or
  the value thrown by a call of \<open>throw_on_cancel\<close> numbered \<open>n\<close> or later.
\<close>

definition quiet :: "(nat \<Rightarrow> string option) \<Rightarrow> nat \<Rightarrow> nat \<Rightarrow> bool" where
  "quiet tc n n' \<longleftrightarrow> n \<le> n' \<and> (\<forall>k. n \<le> k \<and> k < n' \<longrightarrow> tc k = None)"

definition failure :: "(nat \<Rightarrow> string option) \<Rightarrow> nat \<Rightarrow> error \<Rightarrow> bool" where
  "failure tc n e \<longleftrightarrow>
     structural e \<or> e = DivisionByZero \<or> (\<exists>x k. e = Cancelled x \<and> n \<le> k \<and> tc k = Some x)"

lemma quiet_refl: "quiet tc n n"
  by (auto simp: quiet_def)

lemma quiet_trans: "quiet tc n n1 \<Longrightarrow> quiet tc n1 n2 \<Longrightarrow> quiet tc n n2"
  unfolding quiet_def by (metis le_trans not_le)

lemma failure_mono:
  assumes "quiet tc n n1" and "failure tc n1 e"
  shows "failure tc n e"
proof -
  from assms(1) have le: "n \<le> n1" by (simp add: quiet_def)
  from assms(2) consider "structural e" | "e = DivisionByZero"
    | x k where "e = Cancelled x" "n1 \<le> k" "tc k = Some x"
    unfolding failure_def by blast
  then show ?thesis
  proof cases
    case 1
    then show ?thesis by (simp add: failure_def)
  next
    case 2
    then show ?thesis by (simp add: failure_def)
  next
    case 3
    from 3(2) le have "n \<le> k" by simp
    with 3(1,3) show ?thesis unfolding failure_def by blast
  qed
qed

lemma structural_failure: "structural e \<Longrightarrow> failure tc n e"
  by (simp add: failure_def)

lemma poll_quiet: "poll tc n = Inr n' \<Longrightarrow> quiet tc n n'"
  by (auto simp: poll_def quiet_def less_Suc_eq_le split: option.splits)

lemma poll_failure: "poll tc n = Inl e \<Longrightarrow> failure tc n e \<and> \<not> structural e \<and> e \<noteq> DivisionByZero"
  by (auto simp: poll_def failure_def structural_def split: option.splits)

lemma fill_collision_lines_calls:
  "fill_collision_lines env tc n lidx filled rest = Inr (cache, n') \<Longrightarrow> quiet tc n n'"
  "fill_collision_lines env tc n lidx filled rest = Inl e \<Longrightarrow> failure tc n e \<and> e \<noteq> DivisionByZero"
proof (induction rest arbitrary: n lidx filled)
  case Nil
  { case 1 then show ?case by (simp add: quiet_refl) }
  { case 2 then show ?case by simp }
next
  case (Cons l rest)
  {
    case 1
    show ?case
    proof (cases "min_element_radius l \<noteq> coord_t_max env")
      case False
      with 1 have "fill_collision_lines env tc n (lidx + 1)
                     (filled @ [l\<lparr>min_element_radius := 0\<rparr>]) rest = Inr (cache, n')"
        by simp
      from Cons.IH(1) [OF this] show ?thesis .
    next
      case True
      with 1 obtain res n1 where p: "poll tc n = Inr n1"
        and rec: "fill_collision_lines env tc n1 (lidx + 1)
                    (filled @ [l\<lparr>min_element_radius := 0, collision_radius := fst res,
                                 lines := snd res\<rparr>]) rest = Inr (cache, n')"
        by (auto split: option.splits sum.splits)
      from quiet_trans [OF poll_quiet [OF p] Cons.IH(1) [OF rec]] show ?thesis .
    qed
  }
  {
    case 2
    show ?case
    proof (cases "min_element_radius l \<noteq> coord_t_max env")
      case False
      with 2 have "fill_collision_lines env tc n (lidx + 1)
                     (filled @ [l\<lparr>min_element_radius := 0\<rparr>]) rest = Inl e"
        by simp
      from Cons.IH(2) [OF this] show ?thesis .
    next
      case True
      show ?thesis
      proof (cases "collision_lower_bound_lines env lidx 0")
        case None
        with 2 True show ?thesis by (simp add: failure_def structural_def)
      next
        case (Some res)
        show ?thesis
        proof (cases "poll tc n")
          case (Inl e')
          with 2 True Some have "e = e'" by simp
          with poll_failure [OF Inl] show ?thesis by simp
        next
          case (Inr n1)
          with 2 True Some have
            rec: "fill_collision_lines env tc n1 (lidx + 1)
                    (filled @ [l\<lparr>min_element_radius := 0, collision_radius := fst res,
                                 lines := snd res\<rparr>]) rest = Inl e"
            by simp
          from Cons.IH(2) [OF rec] failure_mono [OF poll_quiet [OF Inr]] show ?thesis by blast
        qed
      qed
    qed
  }
qed

text \<open>A sphere whose smoothing cannot divide by zero.\<close>

definition has_weight :: "CollisionSphere \<Rightarrow> bool" where
  "has_weight s \<longleftrightarrow> (\<not> locked s \<longrightarrow> parents (element s) \<noteq> [] \<and> 0 < radius s)"

lemma same_fixed_has_weight: "same_fixed s t \<Longrightarrow> has_weight s \<Longrightarrow> has_weight t"
  by (simp add: same_fixed_def has_weight_def)

lemma weighted_neighbours_positive:
  assumes "weighted_neighbours lin ss s = Inr (avg_sum, weight)"
    and "parents (element s) \<noteq> []" and "0 < radius s"
  shows "0 < weight"
proof -
  have "0 < real (length (parents (element s))) * radius s"
    using assms(2,3) by simp
  with weighted_neighbours_closed_form [OF assms(1)] show ?thesis by auto
qed

lemma laplacian_smoothing_failure:
  assumes "laplacian_smoothing lin ss s = Inl e"
  shows "structural e \<or> (e = DivisionByZero \<and> \<not> (parents (element s) \<noteq> [] \<and> 0 < radius s))"
proof (cases "weighted_neighbours lin ss s")
  case (Inl e')
  with assms have "e = e'" by (simp add: laplacian_smoothing_def)
  with weighted_neighbours_structural [OF Inl] show ?thesis by simp
next
  case (Inr aw)
  obtain a w where aw: "aw = (a, w)" by (cases aw)
  with assms Inr have "w = 0" and "e = DivisionByZero"
    by (auto simp: laplacian_smoothing_def Let_def split: if_splits)
  with weighted_neighbours_positive [of lin ss s a w] Inr aw show ?thesis by auto
qed

lemma update_sphere_failure:
  assumes "update_sphere env cache lin ss s = Inl e"
  shows "structural e \<or> (e = DivisionByZero \<and> \<not> (parents (element s) \<noteq> [] \<and> 0 < radius s))"
proof (cases "avoid_collision env cache s")
  case (Inl e')
  with assms have "e = e'" by (simp add: update_sphere_def)
  with avoid_collision_structural [OF Inl] show ?thesis by simp
next
  case (Inr sm)
  obtain s2 moved where sm: "sm = (s2, moved)" by (cases sm)
  with assms Inr have l: "laplacian_smoothing lin ss s2 = Inl e"
    by (auto simp: update_sphere_def split: sum.splits)
  from avoid_collision_same [of env cache s s2 moved] Inr sm have "same_fixed s s2" by simp
  with laplacian_smoothing_failure [OF l] show ?thesis by (simp add: same_fixed_def)
qed

lemma update_spheres_calls:
  "update_spheres env tc cache lin all todo n = Inr (res, m, n') \<Longrightarrow> quiet tc n n'"
  "update_spheres env tc cache lin all todo n = Inl e \<Longrightarrow>
     failure tc n e \<and> (list_all has_weight todo \<longrightarrow> e \<noteq> DivisionByZero)"
proof (induction todo arbitrary: n res m n')
  case Nil
  { case 1 then show ?case by (simp add: quiet_refl) }
  { case 2 then show ?case by simp }
next
  case (Cons s todo)
  {
    case 1
    show ?case
    proof (cases "locked s")
      case True
      with 1 show ?thesis by (auto split: sum.splits dest: Cons.IH(1))
    next
      case False
      with 1 obtain n1 rest m1 where p: "poll tc n = Inr n1"
        and rec: "update_spheres env tc cache lin all todo n1 = Inr (rest, m1, n')"
        by (auto split: sum.splits)
      from quiet_trans [OF poll_quiet [OF p] Cons.IH(1) [OF rec]] show ?thesis .
    qed
  }
  {
    case 2
    show ?case
    proof (cases "locked s")
      case True
      with 2 have "update_spheres env tc cache lin all todo n = Inl e"
        by (auto split: sum.splits)
      from Cons.IH(2) [OF this] show ?thesis by simp
    next
      case False
      show ?thesis
      proof (cases "update_sphere env cache lin all s")
        case (Inl e')
        with 2 False have "e = e'" by simp
        with update_sphere_failure [OF Inl] False show ?thesis
          by (auto simp: failure_def has_weight_def structural_def)
      next
        case (Inr sm)
        obtain s1 moved where sm: "sm = (s1, moved)" by (cases sm)
        show ?thesis
        proof (cases "poll tc n")
          case (Inl e')
          with 2 False Inr sm have "e = e'" by simp
          with poll_failure [OF Inl] show ?thesis by simp
        next
          case n1: (Inr n1)
          with 2 False Inr sm have
            rec: "update_spheres env tc cache lin all todo n1 = Inl e"
            by (auto split: sum.splits)
          from Cons.IH(2) [OF rec] failure_mono [OF poll_quiet [OF n1]] show ?thesis by auto
        qed
      qed
    qed
  }
qed

lemma list_all2_same_has_weight:
  assumes "list_all2 pass_same ss res" and "list_all has_weight ss"
  shows "list_all has_weight res"
proof -
  have "has_weight (res ! i)" if "i < length res" for i
  proof -
    from assms(1) that have "pass_same (ss ! i) (res ! i)" and "i < length ss"
      by (simp_all add: list_all2_conv_all_nth)
    moreover from assms(2) \<open>i < length ss\<close> have "has_weight (ss ! i)"
      by (simp add: list_all_length)
    ultimately show ?thesis by (auto simp: pass_same_def intro: same_fixed_has_weight)
  qed
  then show ?thesis by (simp add: list_all_length)
qed

lemma solver_pass_calls:
  "solver_pass env tc cache lin ss n = Inr (res, m, n') \<Longrightarrow> quiet tc n n'"
  "solver_pass env tc cache lin ss n = Inl e \<Longrightarrow>
     failure tc n e \<and> (list_all has_weight ss \<longrightarrow> e \<noteq> DivisionByZero)"
proof -
  let ?b = "map (\<lambda>s. s\<lparr>prev_position := position s\<rparr>) ss"
  have hw: "list_all has_weight ?b = list_all has_weight ss"
    by (simp add: list_all_iff has_weight_def)
  show "solver_pass env tc cache lin ss n = Inr (res, m, n') \<Longrightarrow> quiet tc n n'"
    by (simp add: solver_pass_def Let_def update_spheres_calls(1))
  show "solver_pass env tc cache lin ss n = Inl e \<Longrightarrow>
     failure tc n e \<and> (list_all has_weight ss \<longrightarrow> e \<noteq> DivisionByZero)"
    using update_spheres_calls(2) [of env tc cache lin ?b ?b n e] hw
    by (simp add: solver_pass_def Let_def)
qed

lemma solver_passes_calls:
  "solver_passes env tc cache lin remaining ss n = Inr (res, history, n') \<Longrightarrow> quiet tc n n'"
  "solver_passes env tc cache lin remaining ss n = Inl e \<Longrightarrow>
     failure tc n e \<and> (list_all has_weight ss \<longrightarrow> e \<noteq> DivisionByZero)"
proof (induction remaining arbitrary: ss n res history n')
  case 0
  { case 1 then show ?case by (simp add: quiet_refl) }
  { case 2 then show ?case by simp }
next
  case (Suc remaining)
  {
    case 1
    then obtain s1 m n1 where p: "solver_pass env tc cache lin ss n = Inr (s1, m, n1)"
      by (auto split: sum.splits)
    show ?case
    proof (cases "m = 0")
      case True
      with 1 p have "n' = n1" by simp
      with solver_pass_calls(1) [OF p] show ?thesis by simp
    next
      case False
      with 1 p obtain s2 h where
        rec: "solver_passes env tc cache lin remaining s1 n1 = Inr (s2, h, n')"
        by (auto split: sum.splits)
      from quiet_trans [OF solver_pass_calls(1) [OF p] Suc.IH(1) [OF rec]] show ?thesis .
    qed
  }
  {
    case 2
    show ?case
    proof (cases "solver_pass env tc cache lin ss n")
      case (Inl e')
      with 2 have "e = e'" by simp
      with solver_pass_calls(2) [OF Inl] show ?thesis by simp
    next
      case (Inr r)
      obtain s1 m n1 where r: "r = (s1, m, n1)" by (cases r)
      with 2 Inr have rec: "solver_passes env tc cache lin remaining s1 n1 = Inl e"
        by (auto split: if_splits sum.splits)
      from solver_pass_spec [of env tc cache lin ss n s1 m n1] Inr r
      have "list_all2 pass_same ss s1" by simp
      then have hw: "list_all has_weight ss \<Longrightarrow> list_all has_weight s1"
        by (rule list_all2_same_has_weight)
      from Suc.IH(2) [OF rec] failure_mono [OF solver_pass_calls(1) [of env tc cache lin ss n s1 m n1]]
        Inr r hw
      show ?thesis by auto
    qed
  }
qed

lemma solver_passes_spec:
  "solver_passes env tc cache lin remaining ss n = Inr (res, history, n') \<Longrightarrow>
   list_all2 pass_same ss res \<and>
   length history \<le> remaining \<and>
   (0 < remaining \<longrightarrow> history \<noteq> []) \<and>
   res = (if history = [] then ss else snd (last history)) \<and>
   list_all (\<lambda>h. fst h \<noteq> 0) (butlast history) \<and>
   (history \<noteq> [] \<and> length history < remaining \<longrightarrow> fst (last history) = 0) \<and>
   list_all (\<lambda>h. fst h = length (filter (moved_sphere env) (snd h)) \<and>
                  list_all2 pass_same ss (snd h)) history"
proof (induction remaining arbitrary: ss n res history n')
  case 0
  then show ?case by (simp add: list_all2_refl pass_same_refl)
next
  case (Suc remaining)
  from Suc.prems obtain s1 m n1 where
    p: "solver_pass env tc cache lin ss n = Inr (s1, m, n1)"
    by (auto split: sum.splits)
  from solver_pass_spec [OF p] have
    ps: "list_all2 pass_same ss s1" and m: "m = length (filter (moved_sphere env) s1)"
    by simp_all
  show ?case
  proof (cases "m = 0")
    case True
    with Suc.prems p have "res = s1" "history = [(m, s1)]" by auto
    with ps m True show ?thesis by auto
  next
    case False
    with Suc.prems p obtain s2 h where
      rec: "solver_passes env tc cache lin remaining s1 n1 = Inr (s2, h, n')"
      and res: "res = s2" "history = (m, s1) # h"
      by (auto split: sum.splits)
    note ih = Suc.IH [OF rec]
    have ih1: "list_all2 pass_same s1 s2" using ih by blast
    have ih2: "length h \<le> remaining" using ih by blast
    have ih3: "0 < remaining \<longrightarrow> h \<noteq> []" using ih by blast
    have ih4: "s2 = (if h = [] then s1 else snd (last h))" using ih by blast
    have ih5: "list_all (\<lambda>h. fst h \<noteq> 0) (butlast h)" using ih by blast
    have ih6: "h \<noteq> [] \<and> length h < remaining \<longrightarrow> fst (last h) = 0" using ih by blast
    have ih7: "list_all (\<lambda>h. fst h = length (filter (moved_sphere env) (snd h)) \<and>
                          list_all2 pass_same s1 (snd h)) h"
      using ih by blast
    have 1: "list_all2 pass_same ss res"
      using list_all2_pass_same_trans [OF ps ih1] res by simp
    have 2: "length history \<le> Suc remaining" using ih2 res by simp
    have 4: "res = (if history = [] then ss else snd (last history))"
      using ih4 res by simp
    have 5: "list_all (\<lambda>h. fst h \<noteq> 0) (butlast history)"
      using ih5 False res by simp
    have 6: "history \<noteq> [] \<and> length history < Suc remaining \<longrightarrow> fst (last history) = 0"
      using ih3 ih6 res by auto
    have "list_all (\<lambda>h. list_all2 pass_same ss (snd h)) h"
      using ih7 ps by (auto simp: list_all_iff intro: list_all2_pass_same_trans)
    with ih7 have 7: "list_all (\<lambda>h. fst h = length (filter (moved_sphere env) (snd h)) \<and>
                          list_all2 pass_same ss (snd h)) history"
      using res ps m by (auto simp: list_all_iff)
    have 3: "0 < Suc remaining \<longrightarrow> history \<noteq> []" using res by simp
    from 1 2 3 4 5 6 7 show ?thesis by blast
  qed
qed

lemma solve_spheres_stages:
  assumes "solve_spheres env tc n mb elems lin = Inr (before, after, history, n')"
  shows "\<exists>cache0 n1 cache n2 s0 s1 n3.
           collect_min_radius env mb [] elems = Inr cache0 \<and>
           poll tc n = Inr n1 \<and>
           fill_collision_lines env tc n1 0 [] cache0 = Inr (cache, n2) \<and>
           create_spheres env mb lin [] elems = Inr s0 \<and>
           propagate_max_z lin s0 (length s0) = Inr s1 \<and>
           limit_spans env (length cache) s1 = Inr before \<and>
           poll tc n2 = Inr n3 \<and>
           solver_passes env tc cache lin num_iter before n3 = Inr (after, history, n')"
  using assms unfolding solve_spheres_def
  by (auto split: sum.splits)

lemma solve_spheres_before:
  assumes "solve_spheres env tc n mb elems lin = Inr (before, after, history, n')"
  shows "list_all2 (\<lambda>el s. setup_same (new_collision_sphere env (element_at mb (fst el)) (snd el)) s)
           elems before"
proof -
  from solve_spheres_stages [OF assms] obtain cache :: "LayerCollisionCache list" and s0 s1 where
    c: "create_spheres env mb lin [] elems = Inr s0" and
    p: "propagate_max_z lin s0 (length s0) = Inr s1" and
    l: "limit_spans env (length cache) s1 = Inr before"
    by blast
  from create_spheres_spec [OF c] have
    0: "list_all2 (\<lambda>el s. setup_same (new_collision_sphere env (element_at mb (fst el)) (snd el)) s)
          elems s0"
    by simp
  have 1: "list_all2 setup_same s0 before"
    using list_all2_setup_same_trans [OF propagate_max_z_same [OF p] limit_spans_same [OF l]] .
  show ?thesis
    by (rule list_all2_trans [OF _ 0 1]) (rule setup_same_trans)
qed

lemma solve_spheres_passes:
  assumes "solve_spheres env tc n mb elems lin = Inr (before, after, history, n')"
  shows "\<exists>cache n3. solver_passes env tc cache lin num_iter before n3 = Inr (after, history, n')"
  using solve_spheres_stages [OF assms] by blast

text \<open>
  C5. In a run of the solver that reaches the end of its iterations, the sphere of the
  element number \<open>i\<close> is locked iff the element has no parents, or has no link down and a
  layer index above 0; and a locked sphere has, after every pass and at the end, the position
  it had before the first pass.
\<close>

theorem locked_spheres_keep_position:
  assumes "solve_spheres env throw_on_cancel ncalls move_bounds elements_with_link_down
             linear_data_layers = Inr (before, after, history, ncalls')"
  shows "length before = length elements_with_link_down \<and>
         length after = length elements_with_link_down \<and>
         (\<forall>i < length elements_with_link_down.
            (locked (before ! i) \<longleftrightarrow>
               parents (element_at move_bounds (fst (elements_with_link_down ! i))) = [] \<or>
               (snd (elements_with_link_down ! i) = - 1 \<and>
                layer_idx (state (element_at move_bounds (fst (elements_with_link_down ! i)))) > 0)) \<and>
            locked (after ! i) = locked (before ! i) \<and>
            (locked (before ! i) \<longrightarrow>
               position (after ! i) = position (before ! i) \<and>
               list_all (\<lambda>h. position (snd h ! i) = position (before ! i)) history))"
proof -
  note b = solve_spheres_before [OF assms]
  from solve_spheres_passes [OF assms] obtain cache n3 where
    sp: "solver_passes env throw_on_cancel cache linear_data_layers num_iter before n3 =
           Inr (after, history, ncalls')"
    by blast
  note spec = solver_passes_spec [OF sp]
  have pa: "list_all2 pass_same before after" using spec by blast
  have "list_all (\<lambda>h. fst h = length (filter (moved_sphere env) (snd h)) \<and>
                       list_all2 pass_same before (snd h)) history"
    using spec by blast
  then have ph: "list_all (\<lambda>h. list_all2 pass_same before (snd h)) history"
    by (simp add: list_all_iff)
  have lb: "length before = length elements_with_link_down"
    using b by (simp add: list_all2_lengthD)
  have la: "length after = length elements_with_link_down"
    using pa lb by (simp add: list_all2_lengthD)
  have "(locked (before ! i) \<longleftrightarrow>
               parents (element_at move_bounds (fst (elements_with_link_down ! i))) = [] \<or>
               (snd (elements_with_link_down ! i) = - 1 \<and>
                layer_idx (state (element_at move_bounds (fst (elements_with_link_down ! i)))) > 0)) \<and>
            locked (after ! i) = locked (before ! i) \<and>
            (locked (before ! i) \<longrightarrow>
               position (after ! i) = position (before ! i) \<and>
               list_all (\<lambda>h. position (snd h ! i) = position (before ! i)) history)"
    if i: "i < length elements_with_link_down" for i
  proof -
    from b i have "setup_same (new_collision_sphere env
        (element_at move_bounds (fst (elements_with_link_down ! i)))
        (snd (elements_with_link_down ! i))) (before ! i)"
      by (simp add: list_all2_conv_all_nth)
    then have 1: "locked (before ! i) \<longleftrightarrow>
               parents (element_at move_bounds (fst (elements_with_link_down ! i))) = [] \<or>
               (snd (elements_with_link_down ! i) = - 1 \<and>
                layer_idx (state (element_at move_bounds (fst (elements_with_link_down ! i)))) > 0)"
      by (simp add: setup_same_def same_fixed_def new_collision_sphere_def)
    from pa i lb have 2: "pass_same (before ! i) (after ! i)"
      by (simp add: list_all2_conv_all_nth)
    have 3: "list_all (\<lambda>h. position (snd h ! i) = position (before ! i)) history"
      if "locked (before ! i)"
      using ph that i lb
      by (auto simp: list_all_iff list_all2_conv_all_nth pass_same_def)
    from 1 2 3 show ?thesis by (auto simp: pass_same_def same_fixed_def)
  qed
  with lb la show ?thesis by blast
qed



lemma solve_spheres_failure_cases:
  assumes "solve_spheres env tc n mb elems lin = Inl e"
  shows "structural e \<or>
         (\<exists>k. n \<le> k \<and> poll tc k = Inl e \<and> quiet tc n k) \<or>
         (\<exists>n1 cache0. quiet tc n n1 \<and> fill_collision_lines env tc n1 0 [] cache0 = Inl e) \<or>
         (\<exists>cache before n3. quiet tc n n3 \<and>
            list_all2 (\<lambda>el s. setup_same (new_collision_sphere env (element_at mb (fst el)) (snd el)) s)
              elems before \<and>
            solver_passes env tc cache lin num_iter before n3 = Inl e)"
proof (cases "collect_min_radius env mb [] elems")
  case (Inl e')
  with assms have "e = e'" by (simp add: solve_spheres_def)
  with collect_min_radius_structural [OF Inl] show ?thesis by simp
next
  case c0: (Inr cache0)
  show ?thesis
  proof (cases "poll tc n")
    case (Inl e')
    with assms c0 have "e = e'" by (simp add: solve_spheres_def)
    with Inl quiet_refl [of tc n] show ?thesis by auto
  next
    case n1: (Inr n1)
    note q1 = poll_quiet [OF n1]
    show ?thesis
    proof (cases "fill_collision_lines env tc n1 0 [] cache0")
      case (Inl e')
      with assms c0 n1 have "e = e'" by (simp add: solve_spheres_def)
      with Inl q1 show ?thesis by auto
    next
      case f: (Inr cn)
      obtain cache n2 where cn: "cn = (cache, n2)" by (cases cn)
      note q2 = quiet_trans [OF q1 fill_collision_lines_calls(1) [OF f [unfolded cn]]]
      show ?thesis
      proof (cases "create_spheres env mb lin [] elems")
        case (Inl e')
        with assms c0 n1 f cn have "e = e'" by (simp add: solve_spheres_def)
        with create_spheres_structural [OF Inl] show ?thesis by simp
      next
        case s0: (Inr s0)
        show ?thesis
        proof (cases "propagate_max_z lin s0 (length s0)")
          case (Inl e')
          with assms c0 n1 f cn s0 have "e = e'" by (simp add: solve_spheres_def)
          with propagate_max_z_structural [OF Inl] show ?thesis by simp
        next
          case s1: (Inr s1)
          show ?thesis
          proof (cases "limit_spans env (length cache) s1")
            case (Inl e')
            with assms c0 n1 f cn s0 s1 have "e = e'" by (simp add: solve_spheres_def)
            with limit_spans_structural [OF Inl] show ?thesis by simp
          next
            case s2: (Inr before)
            from create_spheres_spec [OF s0] have
              0: "list_all2 (\<lambda>el s. setup_same
                     (new_collision_sphere env (element_at mb (fst el)) (snd el)) s) elems s0"
              by simp
            have 1: "list_all2 setup_same s0 before"
              using list_all2_setup_same_trans
                [OF propagate_max_z_same [OF s1] limit_spans_same [OF s2]] .
            have b: "list_all2 (\<lambda>el s. setup_same
                     (new_collision_sphere env (element_at mb (fst el)) (snd el)) s) elems before"
              by (rule list_all2_trans [OF _ 0 1]) (rule setup_same_trans)
            show ?thesis
            proof (cases "poll tc n2")
              case (Inl e')
              with assms c0 n1 f cn s0 s1 s2 have "e = e'" by (simp add: solve_spheres_def)
              with Inl q2 show ?thesis by (auto simp: quiet_def)
            next
              case n3: (Inr n3)
              note q3 = quiet_trans [OF q2 poll_quiet [OF n3]]
              from assms c0 n1 f cn s0 s1 s2 n3 have
                "solver_passes env tc cache lin num_iter before n3 = Inl e"
                by (auto simp: solve_spheres_def split: sum.splits)
              with q3 b show ?thesis by blast
            qed
          qed
        qed
      qed
    qed
  qed
qed

lemma new_spheres_have_weight:
  assumes "list_all2 (\<lambda>el s. setup_same (new_collision_sphere env (element_at mb (fst el)) (snd el)) s)
             elems before"
    and "\<forall>el \<in> set elems. 0 < unscaled env (getRadius env (state (element_at mb (fst el))))"
  shows "list_all has_weight before"
proof -
  have "has_weight (before ! i)" if "i < length before" for i
  proof -
    from assms(1) that have
      s: "setup_same (new_collision_sphere env (element_at mb (fst (elems ! i))) (snd (elems ! i)))
            (before ! i)"
      and i: "i < length elems"
      by (simp_all add: list_all2_conv_all_nth)
    from assms(2) i have "0 < unscaled env (getRadius env (state (element_at mb (fst (elems ! i)))))"
      by simp
    with s show ?thesis
      by (auto simp: setup_same_def same_fixed_def new_collision_sphere_def has_weight_def)
  qed
  then show ?thesis by (simp add: list_all_length)
qed

text \<open>
  C10. Where every element has a positive radius, the solver never divides by zero: only
  spheres that are not locked are smoothed, a sphere that is not locked has a parent, and
  the weight is then a positive multiple of the radius (lemma \<open>weighted_neighbours_positive\<close>).
\<close>

theorem smoothing_never_divides_by_zero:
  assumes "\<forall>el \<in> set elements_with_link_down.
             0 < unscaled env (getRadius env (state (element_at move_bounds (fst el))))"
  shows "solve_spheres env throw_on_cancel ncalls move_bounds elements_with_link_down
           linear_data_layers \<noteq> Inl DivisionByZero"
proof
  assume a: "solve_spheres env throw_on_cancel ncalls move_bounds elements_with_link_down
           linear_data_layers = Inl DivisionByZero"
  from solve_spheres_failure_cases [OF a] consider
      "structural DivisionByZero"
    | k where "poll throw_on_cancel k = Inl DivisionByZero"
    | n1 cache0 where "fill_collision_lines env throw_on_cancel n1 0 [] cache0 = Inl DivisionByZero"
    | cache before n3 where
        "list_all2 (\<lambda>el s. setup_same
            (new_collision_sphere env (element_at move_bounds (fst el)) (snd el)) s)
            elements_with_link_down before"
        "solver_passes env throw_on_cancel cache linear_data_layers num_iter before n3 =
           Inl DivisionByZero"
    by blast
  then show False
  proof cases
    case 1
    then show ?thesis by (simp add: structural_def)
  next
    case 2
    from poll_failure [OF this] show ?thesis by simp
  next
    case 3
    from fill_collision_lines_calls(2) [OF this] show ?thesis by simp
  next
    case 4
    from new_spheres_have_weight [OF 4(1) assms] solver_passes_calls(2) [OF 4(2)]
    show ?thesis by simp
  qed
qed

text \<open>
  Whatever the input: an outcome \<open>Cancelled x\<close> leaves \<open>move_bounds\<close> as it was, and \<open>x\<close> is a
  value that the probe threw at one of its calls from \<open>ncalls\<close> on.
\<close>

lemma cancelled_outcome_was_thrown:
  assumes "organic_smooth_branches_avoid_collisions env throw_on_cancel ncalls move_bounds
             elements_with_link_down linear_data_layers = (Some (Cancelled x), move_bounds')"
  shows "move_bounds' = move_bounds \<and> (\<exists>k \<ge> ncalls. throw_on_cancel k = Some x)"
proof -
  from assms have
    f: "solve_spheres env throw_on_cancel ncalls move_bounds elements_with_link_down
          linear_data_layers = Inl (Cancelled x)"
    and m: "move_bounds' = move_bounds"
    by (auto simp: organic_smooth_branches_avoid_collisions_def split: sum.splits)
  from solve_spheres_failure_cases [OF f] consider
      "structural (Cancelled x)"
    | k where "ncalls \<le> k" "poll throw_on_cancel k = Inl (Cancelled x)"
    | n1 cache0 where "quiet throw_on_cancel ncalls n1"
        "fill_collision_lines env throw_on_cancel n1 0 [] cache0 = Inl (Cancelled x)"
    | cache before n3 where "quiet throw_on_cancel ncalls n3"
        "solver_passes env throw_on_cancel cache linear_data_layers num_iter before n3 =
           Inl (Cancelled x)"
    by blast
  then have "failure throw_on_cancel ncalls (Cancelled x)"
  proof cases
    case 1
    then show ?thesis by (rule structural_failure)
  next
    case 2
    from poll_Inl [OF 2(2)] 2(1) show ?thesis by (auto simp: failure_def)
  next
    case 3
    from failure_mono [OF 3(1)] fill_collision_lines_calls(2) [OF 3(2)] show ?thesis by blast
  next
    case 4
    from failure_mono [OF 4(1)] solver_passes_calls(2) [OF 4(2)] show ?thesis by blast
  qed
  then have "\<exists>k \<ge> ncalls. throw_on_cancel k = Some x"
    by (auto simp: failure_def structural_def)
  with m show ?thesis by blast
qed

text \<open>
  \<open>replays tc n n' res r\<close>: a stage of the solver that, with a probe that never throws, makes
  the calls number \<open>n\<close>, ..., \<open>n' - 1\<close> and returns \<open>r\<close>, has with the probe \<open>tc\<close> the result
  \<open>res\<close>: it is \<open>r\<close> again where none of these calls throws, and \<open>Cancelled x\<close> where the first
  of them to throw throws \<open>x\<close>.
\<close>

definition replays :: "(nat \<Rightarrow> string option) \<Rightarrow> nat \<Rightarrow> nat \<Rightarrow> error + 'a \<Rightarrow> 'a \<Rightarrow> bool" where
  "replays tc n n' res r \<longleftrightarrow>
     n \<le> n' \<and>
     (quiet tc n n' \<longrightarrow> res = Inr r) \<and>
     (\<forall>k x. n \<le> k \<and> k < n' \<and> tc k = Some x \<and> quiet tc n k \<longrightarrow> res = Inl (Cancelled x))"

lemma replays_pure: "replays tc n n (Inr r) r"
  by (simp add: replays_def)

lemma quiet_split: "n \<le> n1 \<Longrightarrow> n1 \<le> n2 \<Longrightarrow> quiet tc n n2 \<Longrightarrow> quiet tc n n1 \<and> quiet tc n1 n2"
  by (auto simp: quiet_def)

lemma replays_bind:
  assumes 1: "replays tc n n1 res1 r1"
    and 2: "replays tc n1 n2 (f r1) r2"
  shows "replays tc n n2 (case res1 of Inl e \<Rightarrow> Inl e | Inr r \<Rightarrow> f r) r2"
proof -
  from 1 2 have le: "n \<le> n1" "n1 \<le> n2" by (simp_all add: replays_def)
  have a: "(case res1 of Inl e \<Rightarrow> Inl e | Inr r \<Rightarrow> f r) = Inr r2" if q: "quiet tc n n2"
  proof -
    from quiet_split [OF le q] have "quiet tc n n1" "quiet tc n1 n2" by simp_all
    with 1 2 have "res1 = Inr r1" "f r1 = Inr r2" by (simp_all add: replays_def)
    then show ?thesis by simp
  qed
  have b: "(case res1 of Inl e \<Rightarrow> Inl e | Inr r \<Rightarrow> f r) = Inl (Cancelled x)"
    if k: "n \<le> k" "k < n2" "tc k = Some x" "quiet tc n k" for k x
  proof (cases "k < n1")
    case True
    with 1 k have "res1 = Inl (Cancelled x)" unfolding replays_def by blast
    then show ?thesis by simp
  next
    case False
    then have n1k: "n1 \<le> k" by simp
    from quiet_split [OF le(1) n1k k(4)] have q: "quiet tc n n1" "quiet tc n1 k" by simp_all
    from 1 q(1) have "res1 = Inr r1" by (simp add: replays_def)
    moreover from 2 n1k k(2,3) q(2) have "f r1 = Inl (Cancelled x)" unfolding replays_def by blast
    ultimately show ?thesis by simp
  qed
  from le a b show ?thesis unfolding replays_def by auto
qed

lemma replays_poll: "replays tc n (Suc n) (poll tc n) (Suc n)"
  by (auto simp: replays_def poll_def quiet_def less_Suc_eq split: option.splits)

lemma poll_silent: "poll (\<lambda>k. None) n = Inr n' \<longleftrightarrow> n' = Suc n"
  by (auto simp: poll_def)

lemma fill_collision_lines_replays:
  "fill_collision_lines env (\<lambda>k. None) n lidx filled rest = Inr (cache, n') \<Longrightarrow>
   replays tc n n' (fill_collision_lines env tc n lidx filled rest) (cache, n')"
proof (induction rest arbitrary: n lidx filled)
  case Nil
  then show ?case by (simp add: replays_def)
next
  case (Cons l rest)
  show ?case
  proof (cases "min_element_radius l \<noteq> coord_t_max env")
    case False
    with Cons.prems Cons.IH show ?thesis by simp
  next
    case True
    with Cons.prems obtain res where
      res: "collision_lower_bound_lines env lidx 0 = Some res"
      by (auto split: option.splits)
    let ?filled = "filled @ [l\<lparr>min_element_radius := 0, collision_radius := fst res,
                               lines := snd res\<rparr>]"
    from Cons.prems True res have
      "fill_collision_lines env (\<lambda>k. None) (Suc n) (lidx + 1) ?filled rest = Inr (cache, n')"
      by (simp add: poll_def)
    from Cons.IH [OF this]
    have "replays tc (Suc n) n' (fill_collision_lines env tc (Suc n) (lidx + 1) ?filled rest)
            (cache, n')" .
    from replays_bind [OF replays_poll, of tc n n'
        "\<lambda>n1. fill_collision_lines env tc n1 (lidx + 1) ?filled rest", OF this]
    show ?thesis using True res by simp
  qed
qed

lemma replays_map:
  assumes "replays tc n n' res r"
  shows "replays tc n n' (case res of Inl e \<Rightarrow> Inl e | Inr r \<Rightarrow> Inr (g r)) (g r)"
  using assms by (auto simp: replays_def)

lemma update_spheres_replays:
  "update_spheres env (\<lambda>k. None) cache lin ss todo n = Inr (r, m, n') \<Longrightarrow>
   replays tc n n' (update_spheres env tc cache lin ss todo n) (r, m, n')"
proof (induction todo arbitrary: n r m)
  case Nil
  then show ?case by (simp add: replays_def)
next
  case (Cons s todo)
  show ?case
  proof (cases "locked s")
    case True
    with Cons.prems obtain rest m1 where
      rec: "update_spheres env (\<lambda>k. None) cache lin ss todo n = Inr (rest, m1, n')"
      and r: "r = s # rest" "m = m1"
      by (auto split: sum.splits)
    let ?g = "\<lambda>(rest, num_moved, ncalls2). (s # rest, num_moved, ncalls2)"
    have eq: "update_spheres env tc cache lin ss (s # todo) n =
              (case update_spheres env tc cache lin ss todo n of Inl e \<Rightarrow> Inl e
               | Inr r \<Rightarrow> Inr (?g r))"
      using True by (simp split: sum.splits prod.splits)
    from replays_map [OF Cons.IH [OF rec], of ?g]
    show ?thesis unfolding eq using r by simp
  next
    case False
    with Cons.prems obtain s1 moved rest m1 where
      u: "update_sphere env cache lin ss s = Inr (s1, moved)"
      and rec: "update_spheres env (\<lambda>k. None) cache lin ss todo (Suc n) = Inr (rest, m1, n')"
      and r: "r = s1 # rest" "m = (if moved then 1 else 0) + m1"
      by (auto simp: poll_def split: sum.splits)
    let ?g = "\<lambda>(rest, num_moved, ncalls2).
                (s1 # rest, (if moved then 1 else 0) + num_moved, ncalls2)"
    let ?f = "\<lambda>n1. case update_spheres env tc cache lin ss todo n1 of Inl e \<Rightarrow> Inl e
               | Inr r \<Rightarrow> Inr (?g r)"
    have eq: "update_spheres env tc cache lin ss (s # todo) n =
              (case poll tc n of Inl e \<Rightarrow> Inl e | Inr n1 \<Rightarrow> ?f n1)"
      using False u by (simp split: sum.splits prod.splits)
    have "replays tc (Suc n) n' (?f (Suc n)) (r, m, n')"
      using replays_map [OF Cons.IH [OF rec], of ?g] r by simp
    from replays_bind [where f = ?f, OF replays_poll this]
    show ?thesis unfolding eq .
  qed
qed

lemma solver_pass_replays:
  "solver_pass env (\<lambda>k. None) cache lin ss n = Inr (r, m, n') \<Longrightarrow>
   replays tc n n' (solver_pass env tc cache lin ss n) (r, m, n')"
  unfolding solver_pass_def Let_def by (rule update_spheres_replays)

lemma solver_passes_replays:
  "solver_passes env (\<lambda>k. None) cache lin remaining ss n = Inr (r, h, n') \<Longrightarrow>
   replays tc n n' (solver_passes env tc cache lin remaining ss n) (r, h, n')"
proof (induction remaining arbitrary: ss n r h)
  case 0
  then show ?case by (simp add: replays_def)
next
  case (Suc remaining)
  from Suc.prems obtain s1 m n1 where
    p: "solver_pass env (\<lambda>k. None) cache lin ss n = Inr (s1, m, n1)"
    by (auto split: sum.splits)
  note rp = solver_pass_replays [OF p, of tc]
  let ?g = "\<lambda>(spheres2, history, ncalls2). (spheres2, (m, s1) # history, ncalls2)"
  let ?f = "\<lambda>(spheres1, num_moved, ncalls1).
          if num_moved = 0 then Inr (spheres1, [(num_moved, spheres1)], ncalls1)
          else
            (case solver_passes env tc cache lin remaining spheres1 ncalls1 of
               Inl e \<Rightarrow> Inl e
             | Inr r \<Rightarrow> Inr (case r of (spheres2, history, ncalls2) \<Rightarrow>
                 (spheres2, (num_moved, spheres1) # history, ncalls2)))"
  have eq: "solver_passes env tc cache lin (Suc remaining) ss n =
            (case solver_pass env tc cache lin ss n of Inl e \<Rightarrow> Inl e | Inr r \<Rightarrow> ?f r)"
    by (simp split: sum.splits prod.splits)
  have "replays tc n1 n' (?f (s1, m, n1)) (r, h, n')"
  proof (cases "m = 0")
    case True
    with Suc.prems p have "r = s1" "h = [(m, s1)]" "n' = n1" by auto
    with True show ?thesis by (simp add: replays_def)
  next
    case False
    with Suc.prems p obtain s2 h1 where
      rec: "solver_passes env (\<lambda>k. None) cache lin remaining s1 n1 = Inr (s2, h1, n')"
      and r: "r = s2" "h = (m, s1) # h1"
      by (auto split: sum.splits)
    from replays_map [OF Suc.IH [OF rec], of ?g]
    show ?thesis using False r by simp
  qed
  from replays_bind [where f = ?f, OF rp this]
  show ?case unfolding eq .
qed


lemma solve_spheres_replays:
  assumes "solve_spheres env (\<lambda>k. None) n mb elems lin = Inr (before, after, history, n')"
  shows "replays tc n n' (solve_spheres env tc n mb elems lin) (before, after, history, n')"
    and "n + 2 \<le> n'"
proof -
  from solve_spheres_stages [OF assms] obtain cache0 n1 cache n2 s0 s1 n3 where
    c: "collect_min_radius env mb [] elems = Inr cache0" and
    p1: "poll (\<lambda>k. None) n = Inr n1" and
    f: "fill_collision_lines env (\<lambda>k. None) n1 0 [] cache0 = Inr (cache, n2)" and
    cs: "create_spheres env mb lin [] elems = Inr s0" and
    pm: "propagate_max_z lin s0 (length s0) = Inr s1" and
    ls: "limit_spans env (length cache) s1 = Inr before" and
    p2: "poll (\<lambda>k. None) n2 = Inr n3" and
    sp: "solver_passes env (\<lambda>k. None) cache lin num_iter before n3 = Inr (after, history, n')"
    by blast
  from p1 p2 have n1: "n1 = Suc n" and n3: "n3 = Suc n2" by (simp_all add: poll_def)
  let ?g = "\<lambda>(spheres3, history, ncalls4). (before, spheres3, history, ncalls4)"
  let ?f3 = "\<lambda>n3. case solver_passes env tc cache lin num_iter before n3 of
                     Inl e \<Rightarrow> Inl e | Inr r \<Rightarrow> Inr (?g r)"
  let ?f2 = "\<lambda>(layer_collision_cache, ncalls2).
     (case create_spheres env mb lin [] elems of
        Inl e \<Rightarrow> Inl e
      | Inr spheres0 \<Rightarrow>
     (case propagate_max_z lin spheres0 (length spheres0) of
        Inl e \<Rightarrow> Inl e
      | Inr spheres1 \<Rightarrow>
     (case limit_spans env (length layer_collision_cache) spheres1 of
        Inl e \<Rightarrow> Inl e
      | Inr spheres2 \<Rightarrow>
     (case poll tc ncalls2 of
        Inl e \<Rightarrow> Inl e
      | Inr ncalls3 \<Rightarrow>
     (case solver_passes env tc layer_collision_cache lin num_iter spheres2 ncalls3 of
        Inl e \<Rightarrow> Inl e
      | Inr (spheres3, history, ncalls4) \<Rightarrow> Inr (spheres2, spheres3, history, ncalls4))))))"
  let ?f1 = "\<lambda>n1. case fill_collision_lines env tc n1 0 [] cache0 of
                     Inl e \<Rightarrow> Inl e | Inr r \<Rightarrow> ?f2 r"
  have eq: "solve_spheres env tc n mb elems lin =
            (case poll tc n of Inl e \<Rightarrow> Inl e | Inr n1 \<Rightarrow> ?f1 n1)"
    unfolding solve_spheres_def using c by (simp split: sum.splits prod.splits)
  have eq2: "?f2 (cache, n2) = (case poll tc n2 of Inl e \<Rightarrow> Inl e | Inr n3 \<Rightarrow> ?f3 n3)"
    using cs pm ls by (simp split: sum.splits prod.splits)
  have r3: "replays tc (Suc n2) n' (?f3 (Suc n2)) (before, after, history, n')"
    using replays_map [where g = ?g, OF solver_passes_replays [OF sp [unfolded n3], of tc]] by simp
  have r2: "replays tc n2 n' (?f2 (cache, n2)) (before, after, history, n')"
    unfolding eq2 using replays_bind [where f = ?f3, OF replays_poll r3] .
  have r1: "replays tc (Suc n) n' (?f1 (Suc n)) (before, after, history, n')"
    using replays_bind [where f = ?f2, OF fill_collision_lines_replays [OF f [unfolded n1]] r2] .
  show "replays tc n n' (solve_spheres env tc n mb elems lin) (before, after, history, n')"
    unfolding eq using replays_bind [where f = ?f1, OF replays_poll r1] .
  have "Suc n \<le> n2"
    using fill_collision_lines_replays [OF f [unfolded n1], of tc] by (simp add: replays_def)
  moreover have "Suc n2 \<le> n'"
    using r3 by (simp add: replays_def)
  ultimately show "n + 2 \<le> n'" by simp
qed

text \<open>
  C8. Take a call of \<open>organic_smooth_branches_avoid_collisions\<close> that, with a probe that
  never throws, reaches the end of its iterations after the calls number \<open>ncalls\<close>, ...,
  \<open>n' - 1\<close> of the probe (there are at least two). With a probe \<open>throw_on_cancel\<close> in its place:
  where none of these calls throws, the function returns and \<open>move_bounds\<close> holds the positions
  written back; where the first of them to throw is the call \<open>k\<close>, throwing \<open>x\<close>, the outcome is
  \<open>Cancelled x\<close> and \<open>move_bounds\<close> is as it was before the call.
\<close>

theorem cancellation_propagates_and_writes_nothing:
  assumes "solve_spheres env (\<lambda>k. None) ncalls move_bounds elements_with_link_down
             linear_data_layers = Inr (before, after, history, n')"
  shows "ncalls + 2 \<le> n' \<and>
         (quiet throw_on_cancel ncalls n' \<longrightarrow>
            organic_smooth_branches_avoid_collisions env throw_on_cancel ncalls move_bounds
              elements_with_link_down linear_data_layers =
            (None, write_back env move_bounds elements_with_link_down after)) \<and>
         (\<forall>k x. ncalls \<le> k \<and> k < n' \<and> throw_on_cancel k = Some x \<and>
                quiet throw_on_cancel ncalls k \<longrightarrow>
            organic_smooth_branches_avoid_collisions env throw_on_cancel ncalls move_bounds
              elements_with_link_down linear_data_layers =
            (Some (Cancelled x), move_bounds))"
proof -
  note r = solve_spheres_replays(1) [OF assms, of throw_on_cancel]
  have 1: "ncalls + 2 \<le> n'" by (rule solve_spheres_replays(2) [OF assms])
  have 2: "organic_smooth_branches_avoid_collisions env throw_on_cancel ncalls move_bounds
              elements_with_link_down linear_data_layers =
            (None, write_back env move_bounds elements_with_link_down after)"
    if "quiet throw_on_cancel ncalls n'"
  proof -
    from r that have "solve_spheres env throw_on_cancel ncalls move_bounds elements_with_link_down
             linear_data_layers = Inr (before, after, history, n')"
      by (simp add: replays_def)
    then show ?thesis by (simp add: organic_smooth_branches_avoid_collisions_def)
  qed
  have 3: "organic_smooth_branches_avoid_collisions env throw_on_cancel ncalls move_bounds
              elements_with_link_down linear_data_layers =
            (Some (Cancelled x), move_bounds)"
    if "ncalls \<le> k \<and> k < n' \<and> throw_on_cancel k = Some x \<and> quiet throw_on_cancel ncalls k"
    for k x
  proof -
    from r that have "solve_spheres env throw_on_cancel ncalls move_bounds elements_with_link_down
             linear_data_layers = Inl (Cancelled x)"
      unfolding replays_def by blast
    then show ?thesis by (simp add: organic_smooth_branches_avoid_collisions_def)
  qed
  from 1 2 3 show ?thesis by blast
qed

subsection \<open>Root propagation\<close>

text \<open>
  The propagation as the specification states it: \<open>rest\<close> after \<open>k\<close> layers, starting from the
  front slice and subtracting the collision of the layers \<open>layer_begin - 1\<close>, \<open>layer_begin - 2\<close>, ...
\<close>

primrec rest_after :: "'p polygon_env \<Rightarrow> 'p list \<Rightarrow> int \<Rightarrow> nat \<Rightarrow> 'p list" where
  "rest_after env front lbegin 0 = front"
| "rest_after env front lbegin (Suc k) =
     diff_clipped env (rest_after env front lbegin k)
       (getCollision env 0 (lbegin - 1 - int k) False)"

definition extra_slice :: "'p polygon_env \<Rightarrow> 'p list \<Rightarrow> int \<Rightarrow> nat \<Rightarrow> 'p BottomExtraSlice" where
  "extra_slice env front lbegin k =
     \<lparr>polygons = rest_after env front lbegin k,
      area = polygons_area env (rest_after env front lbegin k)\<rparr>"

lemma drop_down_spec:
  assumes "polygons_area env [] < stop"
    and "rest = (if k = 0 then [] else rest_after env front lbegin k)"
    and "lidx = lbegin - 1 - int k"
    and "k = 0 \<or> stop \<le> polygons_area env (rest_after env front lbegin k)"
  shows "\<exists>n. k \<le> n \<and> int n \<le> max (int k) (lbegin - bottommost) \<and>
             drop_down env front stop bottommost lidx rest acc =
               acc @ map (extra_slice env front lbegin) [Suc k ..< Suc n] \<and>
             (\<forall>j. k < j \<and> j \<le> n \<longrightarrow> stop \<le> polygons_area env (rest_after env front lbegin j)) \<and>
             (int n < lbegin - bottommost \<longrightarrow>
                polygons_area env (rest_after env front lbegin (Suc n)) < stop)"
  using assms
proof (induction env front stop bottommost lidx rest acc arbitrary: k
    rule: drop_down.induct)
  case (1 env front stop bottommost lidx rest acc)
  have rest_ne: "rest = [] \<Longrightarrow> k = 0"
    using "1.prems" by (auto split: if_splits)
  have src: "(if rest = [] then front else rest) = rest_after env front lbegin k"
    using "1.prems"(2) rest_ne by (cases "k = 0") auto
  let ?r1 = "rest_after env front lbegin (Suc k)"
  have r1: "diff_clipped env (if rest = [] then front else rest) (getCollision env 0 lidx False) = ?r1"
    using src "1.prems"(3) by simp
  show ?case
  proof (cases "lidx \<ge> bottommost")
    case False
    then have "drop_down env front stop bottommost lidx rest acc = acc"
      by (simp add: drop_down.simps [of env front stop bottommost lidx])
    moreover have "\<not> int k < lbegin - bottommost" using False "1.prems"(3) by simp
    ultimately show ?thesis
      by (intro exI [of _ k]) simp
  next
    case True
    show ?thesis
    proof (cases "polygons_area env ?r1 < stop")
      case stop: True
      then have "drop_down env front stop bottommost lidx rest acc = acc"
        using True r1 by (simp add: drop_down.simps [of env front stop bottommost lidx] Let_def)
      then show ?thesis using stop
        by (intro exI [of _ k]) simp
    next
      case go: False
      then have ne: "?r1 \<noteq> []" using "1.prems"(1) by auto
      have eq: "drop_down env front stop bottommost lidx rest acc =
              drop_down env front stop bottommost (lidx - 1) ?r1
                (acc @ [extra_slice env front lbegin (Suc k)])"
        using True go r1
        by (simp add: drop_down.simps [of env front stop bottommost lidx] Let_def extra_slice_def)
      have p0: "\<not> polygons_area env
                 (diff_clipped env (if rest = [] then front else rest) (getCollision env 0 lidx False))
               < stop"
        using go r1 by simp
      have p2: "diff_clipped env (if rest = [] then front else rest) (getCollision env 0 lidx False) =
              (if Suc k = 0 then [] else rest_after env front lbegin (Suc k))"
        using r1 by simp
      have p3: "lidx - 1 = lbegin - 1 - int (Suc k)" using "1.prems"(3) by simp
      have p4: "Suc k = 0 \<or> stop \<le> polygons_area env (rest_after env front lbegin (Suc k))"
        using go by simp
      have es: "\<lparr>polygons = ?r1, area = polygons_area env ?r1\<rparr> =
                extra_slice env front lbegin (Suc k)"
        by (simp add: extra_slice_def)
      note ih = "1.IH" [OF True refl refl p0 "1.prems"(1) p2 p3 p4, unfolded r1 es]
      from ih
      obtain n where n: "Suc k \<le> n" "int n \<le> max (int (Suc k)) (lbegin - bottommost)"
        "drop_down env front stop bottommost (lidx - 1) ?r1
                (acc @ [extra_slice env front lbegin (Suc k)]) =
               (acc @ [extra_slice env front lbegin (Suc k)]) @
                 map (extra_slice env front lbegin) [Suc (Suc k) ..< Suc n]"
        "\<forall>j. Suc k < j \<and> j \<le> n \<longrightarrow> stop \<le> polygons_area env (rest_after env front lbegin j)"
        "int n < lbegin - bottommost \<longrightarrow>
                polygons_area env (rest_after env front lbegin (Suc n)) < stop"
        by blast
      have kb: "int (Suc k) \<le> lbegin - bottommost" using True "1.prems"(3) by simp
      have 1: "k \<le> n" using n(1) by simp
      have 2: "int n \<le> max (int k) (lbegin - bottommost)" using n(2) kb by simp
      have "[Suc k ..< Suc n] = Suc k # [Suc (Suc k) ..< Suc n]"
        using n(1) by (simp add: upt_conv_Cons)
      then have 3: "drop_down env front stop bottommost lidx rest acc =
               acc @ map (extra_slice env front lbegin) [Suc k ..< Suc n]"
        using eq n(3) by simp
      have 4: "\<forall>j. k < j \<and> j \<le> n \<longrightarrow> stop \<le> polygons_area env (rest_after env front lbegin j)"
      proof (intro allI impI)
        fix j assume j: "k < j \<and> j \<le> n"
        show "stop \<le> polygons_area env (rest_after env front lbegin j)"
        proof (cases "j = Suc k")
          case True
          then show ?thesis using go by simp
        next
          case False
          with j n(4) show ?thesis by simp
        qed
      qed
      from 1 2 3 4 n(5) show ?thesis by blast
    qed
  qed
qed


lemma support_area_stop_pos:
  assumes "bottom_radius \<noteq> 0 \<or> config_branch_radius \<noteq> 0"
  shows "0 < support_area_stop bottom_radius config_branch_radius"
proof -
  have "0 < sqr (real_of_int bottom_radius) \<or> 0 < sqr (real_of_int config_branch_radius)"
    using assms by (auto simp: sqr_def zero_less_mult_iff)
  then have "0 < 0.2 * pi * sqr (real_of_int bottom_radius) \<or>
             0 < 0.5 * (pi * sqr (real_of_int config_branch_radius))"
    using pi_gt_zero by auto
  then show ?thesis
    by (simp only: support_area_stop_def M_PI_def Let_def less_max_iff_disj)
qed

text \<open>
  The propagation in the order in which the specification states it: each step computes
  \<open>rest := rest - collision (0, layer, false)\<close>, pushes \<open>{rest, area (rest)}\<close>, and stops when
  the area is under the threshold.
\<close>

function push_then_stop ::
  "'p polygon_env \<Rightarrow> real \<Rightarrow> int \<Rightarrow> int \<Rightarrow> 'p list \<Rightarrow> 'p BottomExtraSlice list \<Rightarrow>
   'p BottomExtraSlice list" where
  "push_then_stop env stop layer_bottommost lidx rest slices =
     (if lidx \<ge> layer_bottommost then
        (let rest1 = diff_clipped env rest (getCollision env 0 lidx False);
             slices1 = slices @ [\<lparr>polygons = rest1, area = polygons_area env rest1\<rparr>]
         in if polygons_area env rest1 < stop then slices1
            else push_then_stop env stop layer_bottommost (lidx - 1) rest1 slices1)
      else slices)"
  by pat_completeness auto
termination
  by (relation "measure (\<lambda>(env, stop, layer_bottommost, lidx, rest, slices).
                            nat (lidx - layer_bottommost + 1))") auto

declare push_then_stop.simps [simp del]

definition claimed_extra_slices ::
  "'p polygon_env \<Rightarrow> int \<Rightarrow> int \<Rightarrow> int \<Rightarrow> bool \<Rightarrow> int \<Rightarrow> 'p list \<Rightarrow> 'p BottomExtraSlice list" where
  "claimed_extra_slices env bottom_radius config_layer_height config_branch_radius is_verylost
     lbegin front =
     push_then_stop env (support_area_stop bottom_radius config_branch_radius)
       (if is_verylost then 0
        else max 0 (lbegin - layers_propagate_max bottom_radius config_layer_height))
       (lbegin - 1) front []"

text \<open>
  C7, as the code has it. For a branch with the root whose first element does not rest
  graciously on the model, whose \<open>layer_begin\<close> is positive and whose first slice is not empty
  (which is when the code enters the block), the slices dropped below the root are
  \<open>{rest k, area (rest k)}\<close> for \<open>k = 1, ..., n\<close>, where \<open>rest 0\<close> is the front slice and
  \<open>rest (k + 1) = rest k - collision (0, layer_begin - 1 - k, false)\<close>. The area is tested
  before the slice is pushed: every pushed slice has an area of at least
  \<open>max (0.2 \<pi> bottom_radius\<^sup>2) (0.5 \<pi> branch_radius\<^sup>2)\<close>, and the slice on which the propagation
  stops is not pushed. \<open>n\<close> is at most \<open>layer_begin\<close>, and at most
  \<open>5 bottom_radius / layer_height\<close> unless the root is verylost; and when \<open>n\<close> is below that
  limit, the propagation stopped because the area of the next \<open>rest\<close> was under the threshold.
  Here the area of no polygons is zero, \<open>layer_height\<close> is not zero and the two radii are not
  both zero.
\<close>

theorem root_slice_propagates_downward:
  assumes "branch_has_root" and "\<not> is_to_model_gracious" and "0 < lbegin" and "front \<noteq> []"
    and "config_layer_height \<noteq> 0"
    and "polygons_area env [] = 0"
    and "bottom_radius \<noteq> 0 \<or> config_branch_radius \<noteq> 0"
  shows "\<exists>n. root_extra_slices env bottom_radius config_layer_height config_branch_radius
               branch_has_root is_to_model_gracious is_verylost lbegin front =
               Inr (map (extra_slice env front lbegin) [1 ..< Suc n]) \<and>
             (\<forall>j. 1 \<le> j \<and> j \<le> n \<longrightarrow>
                  support_area_stop bottom_radius config_branch_radius
                    \<le> polygons_area env (rest_after env front lbegin j)) \<and>
             int n \<le> lbegin \<and>
             (\<not> is_verylost \<longrightarrow>
                int n \<le> max 0 (layers_propagate_max bottom_radius config_layer_height)) \<and>
             (int n < (if is_verylost then lbegin
                       else min lbegin (layers_propagate_max bottom_radius config_layer_height)) \<longrightarrow>
                polygons_area env (rest_after env front lbegin (Suc n))
                  < support_area_stop bottom_radius config_branch_radius)"
proof -
  define stop where "stop = support_area_stop bottom_radius config_branch_radius"
  define bottommost where "bottommost =
    (if is_verylost then 0
     else max 0 (lbegin - layers_propagate_max bottom_radius config_layer_height))"
  have run: "root_extra_slices env bottom_radius config_layer_height config_branch_radius
               branch_has_root is_to_model_gracious is_verylost lbegin front =
             Inr (drop_down env front stop bottommost (lbegin - 1) [] [])"
    using assms(1-5)
    by (simp add: root_extra_slices_def drop_down_root_def Let_def stop_def bottommost_def)
  have "polygons_area env [] < stop"
    using support_area_stop_pos [OF assms(7)] assms(6) by (simp add: stop_def)
  from drop_down_spec [OF this, of "[]" 0 front lbegin "lbegin - 1" bottommost "[]"]
  obtain n where n: "int n \<le> max 0 (lbegin - bottommost)"
    "drop_down env front stop bottommost (lbegin - 1) [] [] =
       map (extra_slice env front lbegin) [1 ..< Suc n]"
    "\<forall>j. 0 < j \<and> j \<le> n \<longrightarrow> stop \<le> polygons_area env (rest_after env front lbegin j)"
    "int n < lbegin - bottommost \<longrightarrow>
       polygons_area env (rest_after env front lbegin (Suc n)) < stop"
    by auto
  have 1: "root_extra_slices env bottom_radius config_layer_height config_branch_radius
               branch_has_root is_to_model_gracious is_verylost lbegin front =
               Inr (map (extra_slice env front lbegin) [1 ..< Suc n])"
    using run n(2) by simp
  have 2: "\<forall>j. 1 \<le> j \<and> j \<le> n \<longrightarrow> stop \<le> polygons_area env (rest_after env front lbegin j)"
    using n(3) by auto
  have 3: "int n \<le> lbegin"
    using n(1) assms(3) by (auto simp: bottommost_def split: if_splits)
  have 4: "\<not> is_verylost \<longrightarrow>
             int n \<le> max 0 (layers_propagate_max bottom_radius config_layer_height)"
    using n(1) by (auto simp: bottommost_def split: if_splits)
  have 5: "int n < (if is_verylost then lbegin
                    else min lbegin (layers_propagate_max bottom_radius config_layer_height)) \<longrightarrow>
           polygons_area env (rest_after env front lbegin (Suc n)) < stop"
    using n(4) by (auto simp: bottommost_def split: if_splits)
  from 1 2 3 4 5 show ?thesis unfolding stop_def by blast
qed

subsection \<open>The solver on the chain of three elements\<close>

lemmas chain_defs = chain_env_def chain_move_bounds_def chain_elements_def chain_layers_def
  chain_element_def chain_cache_def chain_sphere_def chain_before_def

lemmas solver_defs = deref_def at_index_def Let_def empty_cache_item_def
  new_collision_sphere_def to_3d_def to_2d_def z_of_def FLT_MAX_def DBL_MAX_def poll_def
  limit_span_def sqr_def solver_pass_def update_sphere_def avoid_collision_def
  laplacian_smoothing_def weighted_neighbours_def nudge_away_def add2_def sub2_def scale2_def
  norm2_def squaredNorm2_def normalized2_def add_to_head2_def smoothing_factor_def
  max_nudge_smoothing_def collision_extra_gap_def max_nudge_collision_avoidance_def
  collide_layers.simps

lemma chain_collect:
  "collect_min_radius (chain_env wall) chain_move_bounds [] chain_elements =
     Inr (replicate 3 \<lparr>min_element_radius = 1000, collision_radius = 0, lines = []\<rparr>)"
  by (simp add: chain_defs solver_defs numeral_3_eq_3)

lemma chain_fill:
  "\<forall>k < 4. tc k = None \<Longrightarrow>
   fill_collision_lines (chain_env wall) tc 1 0 []
     (replicate 3 \<lparr>min_element_radius = 1000, collision_radius = 0, lines = []\<rparr>) =
     Inr (chain_cache wall, 4)"
  by (simp add: chain_defs solver_defs numeral_3_eq_3)

lemma chain_spheres:
  "\<exists>s0. create_spheres (chain_env wall) chain_move_bounds chain_layers [] chain_elements = Inr s0 \<and>
     (\<exists>s1. propagate_max_z chain_layers s0 (length s0) = Inr s1 \<and>
            limit_spans (chain_env wall) (length (chain_cache wall)) s1 = Inr chain_before)"
  by (simp add: chain_defs solver_defs)


lemma sqrt_quarter: "sqrt (1 / 4) = 1 / 2"
  using real_sqrt_abs [of "1 / 2"] by (simp add: power2_eq_square)

lemma sqrt_64th: "sqrt (1 / 64) = 1 / 8"
  using real_sqrt_abs [of "1 / 8"] by (simp add: power2_eq_square)

lemma sqrt_256th: "sqrt (1 / 256) = 1 / 16"
  using real_sqrt_abs [of "1 / 16"] by (simp add: power2_eq_square)

lemma quiet_pass:
  "solver_pass (chain_env False) never_cancel (chain_cache False) chain_layers chain_before 5 =
     Inr (quiet_after, 0, 7)"
  by (simp add: chain_defs solver_defs quiet_after_def never_cancel_def)

lemma wall_pass_1:
  "solver_pass (chain_env True) cancel_at_7 (chain_cache True) chain_layers chain_before 5 =
     Inr (wall_after_1, 1, 7)"
  by (simp add: chain_defs solver_defs wall_after_1_def cancel_at_7_def sqrt_quarter sqrt_64th)

lemma wall_pass_2:
  "solver_pass (chain_env True) cancel_at_7 (chain_cache True) chain_layers wall_after_1 7 =
     Inl (Cancelled ''cancelled'')"
  by (simp add: chain_defs solver_defs wall_after_1_def cancel_at_7_def sqrt_256th)

lemma quiet_passes:
  "solver_passes (chain_env False) never_cancel (chain_cache False) chain_layers num_iter
     chain_before 5 = Inr (quiet_after, [(0, quiet_after)], 7)"
proof -
  have 1: "num_iter = Suc 99" by (simp add: num_iter_def)
  show ?thesis
    unfolding 1 solver_passes.simps by (simp add: quiet_pass)
qed

lemma wall_passes:
  "solver_passes (chain_env True) cancel_at_7 (chain_cache True) chain_layers num_iter
     chain_before 5 = Inl (Cancelled ''cancelled'')"
proof -
  have 1: "num_iter = Suc (Suc 98)" by (simp add: num_iter_def)
  show ?thesis
    unfolding 1 solver_passes.simps wall_pass_1 by (simp add: wall_pass_2)
qed

lemma quiet_run:
  "solve_spheres (chain_env False) never_cancel 0 chain_move_bounds chain_elements chain_layers =
     Inr (chain_before, quiet_after, [(0, quiet_after)], 7)"
proof -
  have f: "fill_collision_lines (chain_env False) never_cancel (Suc 0) 0 []
     (replicate 3 \<lparr>min_element_radius = 1000, collision_radius = 0, lines = []\<rparr>) =
     Inr (chain_cache False, 4)"
    using chain_fill [of never_cancel False] by (simp add: never_cancel_def)
  obtain s0 s1 where
    s: "create_spheres (chain_env False) chain_move_bounds chain_layers [] chain_elements = Inr s0"
      "propagate_max_z chain_layers s0 (length s0) = Inr s1"
      "limit_spans (chain_env False) (length (chain_cache False)) s1 = Inr chain_before"
    using chain_spheres [of False] by blast
  have p: "poll never_cancel 0 = Inr 1" "poll never_cancel 4 = Inr 5"
    by (simp_all add: poll_def never_cancel_def)
  show ?thesis
    unfolding solve_spheres_def by (simp add: chain_collect p f s quiet_passes)
qed

lemma wall_run:
  "solve_spheres (chain_env True) cancel_at_7 0 chain_move_bounds chain_elements chain_layers =
     Inl (Cancelled ''cancelled'')"
proof -
  have f: "fill_collision_lines (chain_env True) cancel_at_7 (Suc 0) 0 []
     (replicate 3 \<lparr>min_element_radius = 1000, collision_radius = 0, lines = []\<rparr>) =
     Inr (chain_cache True, 4)"
    using chain_fill [of cancel_at_7 True] by (simp add: cancel_at_7_def)
  obtain s0 s1 where
    s: "create_spheres (chain_env True) chain_move_bounds chain_layers [] chain_elements = Inr s0"
      "propagate_max_z chain_layers s0 (length s0) = Inr s1"
      "limit_spans (chain_env True) (length (chain_cache True)) s1 = Inr chain_before"
    using chain_spheres [of True] by blast
  have p: "poll cancel_at_7 0 = Inr 1" "poll cancel_at_7 4 = Inr 5"
    by (simp_all add: poll_def cancel_at_7_def)
  show ?thesis
    unfolding solve_spheres_def by (simp add: chain_collect p f s wall_passes)
qed


lemma wall_avoid:
  "avoid_collision (chain_env True) (chain_cache True) (chain_sphere 1 (1 / 2) (0, 0) (0, 0, 0) 0) =
     Inr (chain_sphere 1 (3 / 4) (0, 0) (0, 0, 1) (1 / 2), True)"
  by (simp add: chain_defs solver_defs sqrt_quarter)


theorem collision_nudge_is_squared_witness:
  "last_collision_depth (chain_sphere 1 (3 / 4) (0, 0) (0, 0, 1) (1 / 2)) = 1 / 2 \<and>
   to_2d (position (chain_sphere 1 (3 / 4) (0, 0) (0, 0, 1) (1 / 2))) =
     add2 (to_2d (position (chain_sphere 1 (1 / 2) (0, 0) (0, 0, 0) 0)))
       (scale2 ((1 / 2) * (1 / 2)) (0, 1)) \<and>
   norm2 (sub2 (to_2d (position (chain_sphere 1 (3 / 4) (0, 0) (0, 0, 1) (1 / 2))))
               (to_2d (position (chain_sphere 1 (1 / 2) (0, 0) (0, 0, 0) 0)))) =
     (1 / 2) * (1 / 2)"
proof -
  have d: "0 < last_collision_depth (chain_sphere 1 (3 / 4) (0, 0) (0, 0, 1) (1 / 2))"
    by (simp add: chain_sphere_def)
  have n: "min (max 0 (last_collision_depth (chain_sphere 1 (3 / 4) (0, 0) (0, 0, 1) (1 / 2)) + 0.1)) 0.5
           = (1 / 2 :: real)"
    by (simp add: chain_sphere_def)
  have v: "sub2 (to_2d (position (chain_sphere 1 (1 / 2) (0, 0) (0, 0, 0) 0)))
             (to_2d (last_collision (chain_sphere 1 (3 / 4) (0, 0) (0, 0, 1) (1 / 2)))) = (0, 1 / 2)"
    by (simp add: chain_sphere_def sub2_def to_2d_def)
  have u: "normalized2 (0, 1 / 2) = (0, 1)"
    by (simp add: normalized2_def squaredNorm2_def scale2_def sqrt_quarter)
  have nz: "(0 :: real, 1 / 2 :: real) \<noteq> (0, 0)" by simp
  have dd: "last_collision_depth (chain_sphere 1 (3 / 4) (0, 0) (0, 0, 1) (1 / 2)) = 1 / 2"
    by (simp add: chain_sphere_def)
  note t = collision_nudge_is_squared [OF wall_avoid d, unfolded n v u]
  have a: "to_2d (position (chain_sphere 1 (3 / 4) (0, 0) (0, 0, 1) (1 / 2))) =
     add2 (to_2d (position (chain_sphere 1 (1 / 2) (0, 0) (0, 0, 0) 0)))
       (scale2 ((1 / 2) * (1 / 2)) (0, 1))"
    using t by blast
  have c: "norm2 (sub2 (to_2d (position (chain_sphere 1 (3 / 4) (0, 0) (0, 0, 1) (1 / 2))))
               (to_2d (position (chain_sphere 1 (1 / 2) (0, 0) (0, 0, 0) 0)))) =
     (1 / 2) * (1 / 2)"
    using t nz by blast
  from dd a c show ?thesis by blast
qed

text \<open>
  C3, as stated, fails where the centre of the sphere lies on the collision line: the collision
  depth is 1 and the shift the claim states is \<open>1 / 4\<close>, but the position is not changed.
\<close>

theorem collision_nudge_counterexample:
  "avoid_collision (chain_env True) (chain_cache True) (chain_sphere 1 0 (0, 0) (0, 0, 0) 0) =
     Inr (chain_sphere 1 0 (0, 0) (0, 0, 1) 1, True) \<and>
   last_collision_depth (chain_sphere 1 0 (0, 0) (0, 0, 1) 1) = 1 \<and>
   position (chain_sphere 1 0 (0, 0) (0, 0, 1) 1) = position (chain_sphere 1 0 (0, 0) (0, 0, 0) 0) \<and>
   min (max 0 (last_collision_depth (chain_sphere 1 0 (0, 0) (0, 0, 1) 1) + 0.1)) 0.5 *
   min (max 0 (last_collision_depth (chain_sphere 1 0 (0, 0) (0, 0, 1) 1) + 0.1)) 0.5 = (1 / 4 :: real)"
  by (simp add: chain_defs solver_defs)



theorem locked_spheres_keep_position_witness:
  "locked (chain_before ! 2) \<and> \<not> locked (chain_before ! 1) \<and>
   position (quiet_after ! 2) = position (chain_before ! 2)"
proof -
  have "2 < length chain_elements" by (simp add: chain_elements_def)
  with locked_spheres_keep_position [OF quiet_run] show ?thesis
    by (simp add: chain_defs element_at_def)
qed

theorem smoothing_never_divides_by_zero_witness:
  "solve_spheres (chain_env True) never_cancel 0 chain_move_bounds chain_elements chain_layers \<noteq>
     Inl DivisionByZero"
  using smoothing_never_divides_by_zero
    [of chain_elements "chain_env True" chain_move_bounds never_cancel 0 chain_layers]
  by (simp add: chain_env_def chain_elements_def)

lemma cancel_in_second_pass:
  "organic_smooth_branches_avoid_collisions (chain_env True) cancel_at_7 0 chain_move_bounds
     chain_elements chain_layers = (Some (Cancelled ''cancelled''), chain_move_bounds)"
  by (simp add: organic_smooth_branches_avoid_collisions_def wall_run)

theorem cancellation_propagates_and_writes_nothing_witness:
  "organic_smooth_branches_avoid_collisions (chain_env False) cancel_at_6 0 chain_move_bounds
     chain_elements chain_layers = (Some (Cancelled ''cancelled''), chain_move_bounds) \<and>
   organic_smooth_branches_avoid_collisions (chain_env False) cancel_at_7 0 chain_move_bounds
     chain_elements chain_layers =
     (None, write_back (chain_env False) chain_move_bounds chain_elements quiet_after)"
proof -
  have silent: "solve_spheres (chain_env False) (\<lambda>k. None) 0 chain_move_bounds chain_elements
      chain_layers = Inr (chain_before, quiet_after, [(0, quiet_after)], 7)"
    using quiet_run by (simp add: never_cancel_def [abs_def])
  have q6: "quiet cancel_at_6 0 6" and q7: "quiet cancel_at_7 0 7"
    by (simp_all add: quiet_def cancel_at_6_def cancel_at_7_def)
  have c6: "cancel_at_6 6 = Some ''cancelled''" by (simp add: cancel_at_6_def)
  note t6 = cancellation_propagates_and_writes_nothing [OF silent, of cancel_at_6]
  note t7 = cancellation_propagates_and_writes_nothing [OF silent, of cancel_at_7]
  have "(0::nat) \<le> 6 \<and> (6::nat) < 7 \<and> cancel_at_6 6 = Some ''cancelled'' \<and> quiet cancel_at_6 0 6"
    using q6 c6 by simp
  with t6 have 1:
    "organic_smooth_branches_avoid_collisions (chain_env False) cancel_at_6 0 chain_move_bounds
       chain_elements chain_layers = (Some (Cancelled ''cancelled''), chain_move_bounds)"
    by blast
  from t7 q7 have 2:
    "organic_smooth_branches_avoid_collisions (chain_env False) cancel_at_7 0 chain_move_bounds
       chain_elements chain_layers =
       (None, write_back (chain_env False) chain_move_bounds chain_elements quiet_after)"
    by blast
  from 1 2 show ?thesis by blast
qed

subsection \<open>The root dropped down three layers\<close>

lemma example_rest_1:
  "rest_after example_polygons example_front 3 (Suc 0) = [0, 1, 2, 3]"
  by (simp add: example_polygons_def example_front_def)

lemma example_rest_2:
  "rest_after example_polygons example_front 3 (Suc (Suc 0)) = [0, 1, 2]"
  by (simp add: example_polygons_def example_front_def)

lemma example_rest_3:
  "rest_after example_polygons example_front 3 (Suc (Suc (Suc 0))) = [0]"
  by (simp add: example_polygons_def example_front_def)

lemma example_area: "polygons_area example_polygons ps = pi * real (length ps)"
  by (simp add: example_polygons_def)

lemma example_stop: "support_area_stop 3 1 = pi * (9 / 5)"
  by (simp add: support_area_stop_def M_PI_def sqr_def Let_def max_def)

lemma example_propagate_max: "layers_propagate_max 3 1 = 15"
  by (simp add: layers_propagate_max_def)

theorem root_slice_propagates_downward_witness:
  "root_extra_slices example_polygons 3 1 1 True False False 3 example_front =
     Inr [\<lparr>polygons = [0, 1, 2, 3], area = pi * 4\<rparr>, \<lparr>polygons = [0, 1, 2], area = pi * 3\<rparr>] \<and>
   polygons_area example_polygons (rest_after example_polygons example_front 3 3)
     < support_area_stop 3 1"
proof -
  from root_slice_propagates_downward [of True False 3 example_front 1 example_polygons 3 1 False]
  obtain n where n:
    "root_extra_slices example_polygons 3 1 1 True False False 3 example_front =
       Inr (map (extra_slice example_polygons example_front 3) [1 ..< Suc n])"
    "\<forall>j. 1 \<le> j \<and> j \<le> n \<longrightarrow>
       support_area_stop 3 1
         \<le> polygons_area example_polygons (rest_after example_polygons example_front 3 j)"
    "int n < 3 \<longrightarrow>
       polygons_area example_polygons (rest_after example_polygons example_front 3 (Suc n))
         < support_area_stop 3 1"
    by (auto simp: example_area example_front_def example_propagate_max)
  have "n < 3"
  proof (rule ccontr)
    assume "\<not> n < 3"
    then have "support_area_stop 3 1
      \<le> polygons_area example_polygons
           (rest_after example_polygons example_front 3 (Suc (Suc (Suc 0))))"
      using n(2) [rule_format, of "Suc (Suc (Suc 0))"] by simp
    then show False
      unfolding example_rest_3 example_area example_stop using pi_gt_zero by simp
  qed
  moreover have "n \<noteq> 0"
  proof
    assume "n = 0"
    then have "polygons_area example_polygons
                 (rest_after example_polygons example_front 3 (Suc 0)) < support_area_stop 3 1"
      using n(3) by simp
    then show False
      unfolding example_rest_1 example_area example_stop using pi_gt_zero by simp
  qed
  moreover have "n \<noteq> Suc 0"
  proof
    assume "n = Suc 0"
    then have "polygons_area example_polygons
                 (rest_after example_polygons example_front 3 (Suc (Suc 0))) < support_area_stop 3 1"
      using n(3) by simp
    then show False
      unfolding example_rest_2 example_area example_stop using pi_gt_zero by simp
  qed
  ultimately have "n = Suc (Suc 0)" by arith
  then have u: "[1 ..< Suc n] = [Suc 0, Suc (Suc 0)]"
    by (simp add: upt_rec)
  have m: "map (extra_slice example_polygons example_front 3) [Suc 0, Suc (Suc 0)] =
     [\<lparr>polygons = [0, 1, 2, 3], area = pi * 4\<rparr>, \<lparr>polygons = [0, 1, 2], area = pi * 3\<rparr>]"
    unfolding list.map extra_slice_def example_rest_1 example_rest_2 example_area by simp
  have 1: "root_extra_slices example_polygons 3 1 1 True False False 3 example_front =
     Inr [\<lparr>polygons = [0, 1, 2, 3], area = pi * 4\<rparr>, \<lparr>polygons = [0, 1, 2], area = pi * 3\<rparr>]"
    unfolding n(1) u m by (rule refl)
  have 2: "polygons_area example_polygons (rest_after example_polygons example_front 3 3)
     < support_area_stop 3 1"
    unfolding numeral_3_eq_3 example_rest_3 example_area example_stop using pi_gt_zero by simp
  from 1 2 show ?thesis by blast
qed

text \<open>
  C7, as stated, fails on this root: pushing the slice of each step and then stopping gives
  three slices, the last one under the threshold; the code tests the area before it pushes
  and leaves the loop with two.
\<close>

theorem stopping_slice_is_not_pushed:
  "root_extra_slices example_polygons 3 1 1 True False False 3 example_front =
     Inr [\<lparr>polygons = [0, 1, 2, 3], area = pi * 4\<rparr>, \<lparr>polygons = [0, 1, 2], area = pi * 3\<rparr>] \<and>
   claimed_extra_slices example_polygons 3 1 1 False 3 example_front =
     [\<lparr>polygons = [0, 1, 2, 3], area = pi * 4\<rparr>, \<lparr>polygons = [0, 1, 2], area = pi * 3\<rparr>,
      \<lparr>polygons = [0], area = pi\<rparr>]"
proof -
  have less: "\<not> pi * 4 < pi * (9 / 5)" "\<not> pi * 3 < pi * (9 / 5)" "pi < pi * (9 / 5)"
    using pi_gt_zero by simp_all
  have 1: "root_extra_slices example_polygons 3 1 1 True False False 3 example_front =
     Inr [\<lparr>polygons = [0, 1, 2, 3], area = pi * 4\<rparr>, \<lparr>polygons = [0, 1, 2], area = pi * 3\<rparr>]"
    unfolding root_extra_slices_def drop_down_root_def example_stop example_propagate_max
    by (simp add: drop_down.simps [of _ _ _ _ 2] drop_down.simps [of _ _ _ _ 1]
        drop_down.simps [of _ _ _ _ 0] example_polygons_def example_front_def less)
  have 2: "claimed_extra_slices example_polygons 3 1 1 False 3 example_front =
     [\<lparr>polygons = [0, 1, 2, 3], area = pi * 4\<rparr>, \<lparr>polygons = [0, 1, 2], area = pi * 3\<rparr>,
      \<lparr>polygons = [0], area = pi\<rparr>]"
    unfolding claimed_extra_slices_def example_stop example_propagate_max
    by (simp add: push_then_stop.simps [of _ _ _ 2] push_then_stop.simps [of _ _ _ 1]
        push_then_stop.simps [of _ _ _ 0] example_polygons_def example_front_def less)
  from 1 2 show ?thesis by blast
qed

text \<open>
  Where both radii are zero the threshold is zero and an empty \<open>rest_support\<close> does not
  stop the loop: the next layer starts again from the front slice.
\<close>

lemma drop_down_restarts_from_front:
  "root_extra_slices covered_polygons 0 1 0 True False True 3 example_front =
     Inr [\<lparr>polygons = [], area = 0\<rparr>, \<lparr>polygons = [0, 1, 2, 4], area = pi * 4\<rparr>,
          \<lparr>polygons = [0, 4], area = pi * 2\<rparr>]"
proof -
  have stop: "support_area_stop 0 0 = 0"
    by (simp add: support_area_stop_def sqr_def Let_def)
  have less: "\<not> pi * 4 < 0" "\<not> pi * 2 < 0"
    using pi_gt_zero by simp_all
  show ?thesis
    unfolding root_extra_slices_def drop_down_root_def stop
    by (simp add: drop_down.simps [of _ _ _ _ 2] drop_down.simps [of _ _ _ _ 1]
        drop_down.simps [of _ _ _ _ 0] drop_down.simps [of _ _ _ _ "-1"]
        covered_polygons_def example_front_def less)
qed

end
